theory Spec2Isabelle
  imports Main "HOL-Library.Word"
begin

unbundle bit_operations_syntax

section \<open>Machine types\<close>

text \<open>
  \<open>Pixie16::word_t\<close> is the 32-bit unsigned FIFO word and \<open>unsigned int\<close> is 32 bits wide
  as well; \<open>size_t\<close> is 64 bits wide. Positions in the spill buffer stay far below
  \<open>2 ^ 64\<close>, so they are natural numbers; the one \<open>size_t\<close> subtraction of the source
  that can wrap around (in the corruption dump) is written with 64-bit words.
\<close>

type_synonym word_t = "32 word"
type_synonym size_t = "64 word"

section \<open>Event header word (Poll::ReadFIFO, parsing loop)\<close>

definition slotRead :: "word_t \<Rightarrow> word_t" where
  "slotRead w = drop_bit 4 (w AND 0xF0)"

definition chanRead :: "word_t \<Rightarrow> word_t" where
  "chanRead w = w AND 0xF"

definition eventSize_of :: "word_t \<Rightarrow> word_t" where
  "eventSize_of w = drop_bit 17 (w AND 0x7FFE2000)"

definition virtualChannel :: "word_t \<Rightarrow> bool" where
  "virtualChannel w = (w AND 0x20000000 \<noteq> 0)"

text \<open>The three checks made on the first word of every event, in source order.\<close>

datatype parse_error =
    SlotMismatch word_t word_t
  | ChannelNotValid word_t
  | ZeroEventSize

definition event_errors :: "word_t \<Rightarrow> word_t \<Rightarrow> parse_error list" where
  "event_errors slotExpected w =
     (if slotRead w \<noteq> slotExpected then [SlotMismatch (slotRead w) slotExpected] else []) @
     (if chanRead w < 0 \<or> chanRead w > 15 then [ChannelNotValid (chanRead w)] else []) @
     (if eventSize_of w = 0 then [ZeroEventSize] else [])"

section \<open>Word buffers\<close>

text \<open>
  A raw \<open>word_t *\<close> buffer is a map from positions to words. \<open>window buf pos n\<close> is the
  block of \<open>n\<close> words starting at \<open>pos\<close> (what a \<open>memcpy\<close> of \<open>4 * n\<close> bytes from
  \<open>&buf[pos]\<close> reads); \<open>store buf pos ws\<close> writes the words \<open>ws\<close> at \<open>pos\<close> and after.
\<close>

definition window :: "(nat \<Rightarrow> word_t) \<Rightarrow> nat \<Rightarrow> nat \<Rightarrow> word_t list" where
  "window buf pos n = map buf [pos ..< pos + n]"

definition store :: "(nat \<Rightarrow> word_t) \<Rightarrow> nat \<Rightarrow> word_t list \<Rightarrow> (nat \<Rightarrow> word_t)" where
  "store buf pos ws = (\<lambda>i. if pos \<le> i \<and> i < pos + length ws then ws ! (i - pos) else buf i)"

section \<open>Poll::broadcast_data\<close>

text \<open>
  Every \<open>client->SendMessage\<close> of the chunked mode is one datagram, modelled by the
  words it carries: the two header words \<open>net_chunk\<close>, \<open>num_net_chunks\<close> and then the
  payload. Without \<open>shm_mode\<close> one spill notification goes out through the output file.
\<close>

definition maxShmSizeL :: word_t where
  "maxShmSizeL = 4050"

function shm_loop ::
  "(nat \<Rightarrow> word_t) \<Rightarrow> word_t \<Rightarrow> word_t \<Rightarrow> word_t \<Rightarrow> word_t \<Rightarrow> word_t list list" where
  "shm_loop data nWords num_net_chunks net_chunk words_bcast =
     (if words_bcast < nWords then
        (if nWords - words_bcast > maxShmSizeL then
           ([net_chunk, num_net_chunks] @ window data (unat words_bcast) (unat maxShmSizeL))
             # shm_loop data nWords num_net_chunks (net_chunk + 1) (words_bcast + maxShmSizeL)
         else
           ([net_chunk, num_net_chunks] @
              window data (unat words_bcast) (unat (nWords - words_bcast)))
             # shm_loop data nWords num_net_chunks (net_chunk + 1)
                 (words_bcast + (nWords - words_bcast)))
      else [])"
  by pat_completeness auto
termination
proof (relation "measure (\<lambda>(data, nWords, num_net_chunks, net_chunk, words_bcast).
                   unat (nWords - words_bcast))")
  show "wf (measure (\<lambda>(data, nWords, num_net_chunks, net_chunk, words_bcast).
              unat (nWords - words_bcast)))"
    by simp
next
  fix data :: "nat \<Rightarrow> word_t" and nWords num_net_chunks net_chunk words_bcast :: word_t
  assume a: "words_bcast < nWords" "maxShmSizeL < nWords - words_bcast"
  have b: "unat (nWords - words_bcast) = unat nWords - unat words_bcast"
    "4050 < unat nWords - unat words_bcast"
    using a by (simp_all add: maxShmSizeL_def word_less_nat_alt word_le_nat_alt unat_sub)
  have "unat nWords < 2 ^ LENGTH(32)" by (rule unsigned_less)
  then have "unat words_bcast + 4050 < 2 ^ 32" using b by simp
  then have c: "unat (words_bcast + 4050) = unat words_bcast + 4050"
    by (simp add: unat_word_ariths)
  then have "words_bcast + 4050 \<le> nWords" using b by (simp add: word_le_nat_alt)
  then have "unat (nWords - (words_bcast + 4050)) = unat (nWords - words_bcast) - 4050"
    using b c by (simp add: unat_sub)
  then show "((data, nWords, num_net_chunks, net_chunk + 1, words_bcast + maxShmSizeL),
         (data, nWords, num_net_chunks, net_chunk, words_bcast))
        \<in> measure (\<lambda>(data, nWords, num_net_chunks, net_chunk, words_bcast).
                   unat (nWords - words_bcast))"
    using b by (simp add: maxShmSizeL_def)
next
  fix data :: "nat \<Rightarrow> word_t" and nWords num_net_chunks net_chunk words_bcast :: word_t
  assume a: "words_bcast < nWords" "\<not> maxShmSizeL < nWords - words_bcast"
  then have "0 < unat (nWords - words_bcast)"
    by (simp add: word_less_nat_alt word_le_nat_alt unat_sub)
  then show "((data, nWords, num_net_chunks, net_chunk + 1,
          words_bcast + (nWords - words_bcast)),
         (data, nWords, num_net_chunks, net_chunk, words_bcast))
        \<in> measure (\<lambda>(data, nWords, num_net_chunks, net_chunk, words_bcast).
                   unat (nWords - words_bcast))"
    by simp
qed

declare shm_loop.simps [simp del]

definition shm_chunks :: "(nat \<Rightarrow> word_t) \<Rightarrow> word_t \<Rightarrow> word_t list list" where
  "shm_chunks data nWords =
     (let num_net_chunks = nWords div maxShmSizeL;
          num_net_remain = nWords mod maxShmSizeL;
          num_net_chunks = (if num_net_remain \<noteq> 0 then num_net_chunks + 1 else num_net_chunks)
      in shm_loop data nWords num_net_chunks 1 0)"

datatype net_msg = Datagram "word_t list" | SpillNotification

definition broadcast_data :: "bool \<Rightarrow> (nat \<Rightarrow> word_t) \<Rightarrow> word_t \<Rightarrow> net_msg list" where
  "broadcast_data shm_mode data nWords =
     (if shm_mode then map Datagram (shm_chunks data nWords) else [SpillNotification])"

section \<open>The output file\<close>

text \<open>
  Modelled from the spec: the class of \<open>output_file\<close> (its \<open>IsOpen\<close>, \<open>GetFilesize\<close>,
  \<open>CloseFile\<close>, \<open>OpenNewFile\<close>, \<open>Write\<close> and \<open>GetNextFileName\<close>) is not part of the
  sources at hand. Following the spec's section on the output file: a file is open iff its
  flag says so and closing always clears the flag; \<open>OpenNewFile\<close> fails when the path is not
  writable, restarts the sub-file counter on a new run and increments it on a continued
  run; \<open>Write\<close> appends \<open>4 * wordCount\<close> bytes to an open file and reports the bytes
  written. What the file system decides is a parameter: whether the path is writable, the
  size of a file that was just opened, and the next free run number.
\<close>

record output_file_t =
  is_open :: bool
  filesize :: nat
  sub_file :: nat

record file_env =
  path_writable :: bool
  fresh_filesize :: nat
  next_free_run :: "nat \<Rightarrow> nat"

definition CloseFile :: "output_file_t \<Rightarrow> output_file_t" where
  "CloseFile f = f\<lparr>is_open := False\<rparr>"

definition OpenNewFile :: "file_env \<Rightarrow> bool \<Rightarrow> output_file_t \<Rightarrow> bool \<times> output_file_t" where
  "OpenNewFile env continueRun f =
     (if path_writable env
      then (True, f\<lparr>is_open := True, filesize := fresh_filesize env,
                     sub_file := (if continueRun then sub_file f + 1 else 0)\<rparr>)
      else (False, f\<lparr>is_open := False\<rparr>))"

definition Write :: "output_file_t \<Rightarrow> word_t \<Rightarrow> int \<times> output_file_t" where
  "Write f nWords =
     (if is_open f
      then (4 * int (unat nWords), f\<lparr>filesize := filesize f + 4 * unat nWords\<rparr>)
      else (0, f))"

section \<open>The state of Poll\<close>

text \<open>
  What the run loop prints as an error or a warning, what it tells the statistics handler
  and the hardware interface, and what it writes or sends, is kept as a trace of events,
  in the order of the calls of the source. The progress messages that are printed unless
  \<open>is_quiet\<close> is set are not events of the trace.
\<close>

datatype console_msg =
    NegativeFIFOWords nat
  | FullFIFO nat word_t
  | ReadFailed nat word_t
  | ParseError parse_error
  | CorruptedData nat "word_t list" "word_t list" "word_t list"
  | NoFileOpen
  | FileAlreadyOpen
  | OpenFailed

datatype io_event =
    Console console_msg
  | StatsClear
  | StatsDump
  | StatsAddEvent nat word_t nat
  | StatsAddTime
  | StatsClearRates
  | StatsSetXiaRates nat
  | GetStatistics nat
  | FileClosed
  | FileOpened bool bool
  | FileWritten "word_t list"
  | ClientMessage string
  | ClientSend net_msg

record poll =
  acq_running :: bool
  force_spill :: bool
  had_error :: bool
  do_stop_acq :: bool
  record_data :: bool
  shm_mode :: bool
  file_open :: bool
  threshWords :: nat
  next_run_num :: nat
  output_file :: output_file_t
  partialEvents :: "word_t list list"
  fifoData :: "nat \<Rightarrow> word_t"
  trace :: "io_event list"

definition emit :: "io_event list \<Rightarrow> poll \<Rightarrow> poll" where
  "emit es s = s\<lparr>trace := trace s @ es\<rparr>"

section \<open>Poll::CloseOutputFile, Poll::OpenOutputFile, Poll::write_data\<close>

definition CloseOutputFile :: "file_env \<Rightarrow> bool \<Rightarrow> poll \<Rightarrow> bool \<times> poll" where
  "CloseOutputFile env continueRun s =
     (if \<not> is_open (output_file s) then
        (False, (emit [Console NoFileOpen] s)\<lparr>file_open := False\<rparr>)
      else
        let s1 = (if \<not> continueRun then emit [StatsClear, StatsDump] s else s);
            s2 = emit [FileClosed] (s1\<lparr>output_file := CloseFile (output_file s1)\<rparr>);
            s3 = (emit [ClientMessage ''$CLOSE_FILE''] s2)\<lparr>file_open := False\<rparr>;
            s4 = (if \<not> continueRun
                  then s3\<lparr>next_run_num := next_free_run env (next_run_num s3)\<rparr> else s3)
        in (True, s4))"

definition OpenOutputFile :: "file_env \<Rightarrow> bool \<Rightarrow> poll \<Rightarrow> bool \<times> poll" where
  "OpenOutputFile env continueRun s =
     (if is_open (output_file s) then
        let s1 = snd (CloseOutputFile env False (emit [Console FileAlreadyOpen] s))
        in (False, s1\<lparr>had_error := True, record_data := False\<rparr>)
      else
        case OpenNewFile env continueRun (output_file s) of
          (False, f) \<Rightarrow>
            (False, (emit [FileOpened continueRun False, Console OpenFailed]
                       (s\<lparr>output_file := f\<rparr>))\<lparr>had_error := True, record_data := False\<rparr>)
        | (True, f) \<Rightarrow>
            (True, (emit [FileOpened continueRun True, StatsClear, StatsDump,
                          ClientMessage ''$OPEN_FILE'']
                      (s\<lparr>output_file := f\<rparr>))\<lparr>file_open := True\<rparr>))"

definition MAX_FILE_SIZE :: nat where
  "MAX_FILE_SIZE = 2147483648"

text \<open>
  In \<open>current_filesize + (std::streampos)(4*nWords + 65552) > MAX_FILE_SIZE\<close> the inner
  sum is computed in \<open>unsigned int\<close> before it is widened, so it is a 32-bit word here.
\<close>

definition write_data :: "file_env \<Rightarrow> (nat \<Rightarrow> word_t) \<Rightarrow> word_t \<Rightarrow> poll \<Rightarrow> int \<times> poll" where
  "write_data env data nWords s =
     (if \<not> is_open (output_file s) then
        (0, (emit [Console NoFileOpen] s)\<lparr>do_stop_acq := True, had_error := True\<rparr>)
      else
        let current_filesize = filesize (output_file s);
            s1 = (if current_filesize + unat (4 * nWords + 65552) > MAX_FILE_SIZE
                  then snd (OpenOutputFile env True (snd (CloseOutputFile env True s)))
                  else s);
            (bytes, f) = Write (output_file s1) nWords
        in (bytes, (if is_open (output_file s1)
                    then emit [FileWritten (window data 0 (unat nWords))] s1
                    else s1)\<lparr>output_file := f\<rparr>))"

section \<open>Poll::ReadFIFO\<close>

text \<open>
  The constants \<open>MIN_FIFO_READ\<close> and \<open>EXTERNAL_FIFO_LENGTH\<close> come from headers that
  are not part of the sources at hand; they are parameters, as are the number of modules
  and their slot numbers. \<open>POLL_TRIES\<close> is defined in the source.
\<close>

record config =
  n_cards :: nat
  MIN_FIFO_READ :: nat
  EXTERNAL_FIFO_LENGTH :: nat
  GetSlotNumber :: "nat \<Rightarrow> word_t"

definition POLL_TRIES :: nat where
  "POLL_TRIES = 100"

text \<open>
  The hardware interface and the clock as one drain cycle sees them: the word count of
  module \<open>mod\<close> at polling attempt \<open>t\<close> (after the cast to \<open>unsigned int\<close>), whether the
  read of a module succeeds, the words its FIFO hands out, in order, and whether
  \<open>StatsHandler::AddTime\<close>, given the duration of the spill, reports that the dump
  interval has run out.
\<close>

record hw =
  CheckFIFOWords :: "nat \<Rightarrow> nat \<Rightarrow> word_t"
  ReadFIFOWords_ok :: "nat \<Rightarrow> bool"
  fifo_words :: "nat \<Rightarrow> nat \<Rightarrow> word_t"
  AddTime :: bool

definition maxWords :: "word_t list \<Rightarrow> word_t" where
  "maxWords nWords = fold max nWords 0"

function poll_fifo :: "config \<Rightarrow> hw \<Rightarrow> nat \<Rightarrow> nat \<Rightarrow> word_t list" where
  "poll_fifo cfg h thresh timeout =
     (let nWords = map (CheckFIFOWords h timeout) [0 ..< n_cards cfg]
      in if unat (maxWords nWords) > thresh then nWords
         else if Suc timeout < POLL_TRIES then poll_fifo cfg h thresh (Suc timeout)
         else nWords)"
  by pat_completeness auto
termination
  by (relation "measure (\<lambda>(cfg, h, thresh, timeout). POLL_TRIES - timeout)") auto

declare poll_fifo.simps [simp del]

subsection \<open>The parsing loop\<close>

record parse_state =
  parseWords :: nat
  eventSize :: word_t
  prevEventSize :: word_t
  p_had_error :: bool
  p_log :: "io_event list"

function parse_loop ::
  "word_t \<Rightarrow> nat \<Rightarrow> (nat \<Rightarrow> word_t) \<Rightarrow> nat \<Rightarrow> parse_state \<Rightarrow> parse_state" where
  "parse_loop slotExpected module buf stop st =
     (if parseWords st < stop then
        (if p_had_error st \<or> event_errors slotExpected (buf (parseWords st)) \<noteq> [] then
           st\<lparr>eventSize := eventSize_of (buf (parseWords st)),
              p_had_error := True,
              p_log := p_log st @
                map (Console \<circ> ParseError) (event_errors slotExpected (buf (parseWords st)))\<rparr>
         else
           parse_loop slotExpected module buf stop
             (st\<lparr>eventSize := eventSize_of (buf (parseWords st)),
                 prevEventSize := eventSize_of (buf (parseWords st)),
                 parseWords := parseWords st + unat (eventSize_of (buf (parseWords st))),
                 p_log := p_log st @
                   (if \<not> virtualChannel (buf (parseWords st))
                    then [StatsAddEvent module (chanRead (buf (parseWords st)))
                            (4 * unat (eventSize_of (buf (parseWords st))))]
                    else [])\<rparr>))
      else st)"
  by pat_completeness auto
termination
proof (relation "measure (\<lambda>(slotExpected, module, buf, stop, st). stop - parseWords st)")
  show "wf (measure (\<lambda>(slotExpected, module, buf, stop, st). stop - parseWords st))"
    by simp
next
  fix slotExpected :: word_t and module :: nat and buf :: "nat \<Rightarrow> word_t" and stop :: nat
    and st :: parse_state
  assume a: "parseWords st < stop"
    "\<not> (p_had_error st \<or> event_errors slotExpected (buf (parseWords st)) \<noteq> [])"
  then have "eventSize_of (buf (parseWords st)) \<noteq> 0"
    by (auto simp: event_errors_def split: if_splits)
  then have "0 < unat (eventSize_of (buf (parseWords st)))"
    by (simp add: unat_gt_0)
  with a(1) show "((slotExpected, module, buf, stop,
           st\<lparr>eventSize := eventSize_of (buf (parseWords st)),
               prevEventSize := eventSize_of (buf (parseWords st)),
               parseWords := parseWords st + unat (eventSize_of (buf (parseWords st))),
               p_log := p_log st @
                 (if \<not> virtualChannel (buf (parseWords st))
                  then [StatsAddEvent module (chanRead (buf (parseWords st)))
                          (4 * unat (eventSize_of (buf (parseWords st))))]
                  else [])\<rparr>),
          (slotExpected, module, buf, stop, st))
         \<in> measure (\<lambda>(slotExpected, module, buf, stop, st). stop - parseWords st)"
    by simp
qed

declare parse_loop.simps [simp del]

subsection \<open>The spill buffer and the corruption dump\<close>

text \<open>
  The spill buffer \<open>fifoData\<close> has \<open>(EXTERNAL_FIFO_LENGTH + 2) * n_cards\<close> words. An
  access at an index from that capacity on is outside the array: the behaviour of the
  program is undefined there, which is an outcome of its own in this model. A printing loop
  that reads \<open>count\<close> words from \<open>start\<close> on stays inside the buffer only if
  \<open>start + count\<close> does not exceed the capacity; otherwise the dump has no result.
\<close>

definition capacity :: "config \<Rightarrow> nat" where
  "capacity cfg = (EXTERNAL_FIFO_LENGTH cfg + 2) * n_cards cfg"

definition dump_words :: "config \<Rightarrow> (nat \<Rightarrow> word_t) \<Rightarrow> nat \<Rightarrow> nat \<Rightarrow> word_t list option" where
  "dump_words cfg buf start count =
     (if start + count \<le> capacity cfg then Some (window buf start count) else None)"

definition next_outputSize :: "nat \<Rightarrow> word_t \<Rightarrow> word_t \<Rightarrow> nat \<Rightarrow> size_t" where
  "next_outputSize parsePos evSize nextEventSize stop =
     (let outputSize = (if evSize > 50 then 50 else ucast nextEventSize :: size_t)
      in if (of_nat parsePos :: size_t) + ucast evSize + outputSize \<ge> of_nat stop
         then of_nat stop - (of_nat parsePos + ucast evSize)
         else outputSize)"

definition corruption_dump ::
  "config \<Rightarrow> nat \<Rightarrow> (nat \<Rightarrow> word_t) \<Rightarrow> nat \<Rightarrow> parse_state \<Rightarrow> console_msg option" where
  "corruption_dump cfg module buf stop st =
     (let nextEventSize =
            (if parseWords st + unat (eventSize st) < stop
             then eventSize_of (buf (parseWords st + unat (eventSize st))) else 0)
      in case (dump_words cfg buf (parseWords st - unat (prevEventSize st))
                 (unat (prevEventSize st)),
               dump_words cfg buf (parseWords st)
                 (if eventSize st > 50 then 50 else unat (eventSize st)),
               dump_words cfg buf (parseWords st + unat (eventSize st))
                 (unat (next_outputSize (parseWords st) (eventSize st) nextEventSize stop))) of
           (Some prev, Some this, Some following) \<Rightarrow>
             Some (CorruptedData module prev this following)
         | _ \<Rightarrow> None)"

subsection \<open>One module of a drain cycle\<close>

text \<open>
  The step of the loop over the modules for one module, from the position \<open>dataWords\<close>
  of the spill buffer on. Every write is checked against the capacity of the buffer: the
  two words of an empty record; the module number and the copy of the partial event; the
  \<open>nWords\<close> words that a successful \<open>ReadFIFOWords\<close> has put behind the partial event (a
  read that fails is taken to have written nothing). The words parsed, the words moved to
  the partial event and the header word then lie in the part written.
\<close>

datatype drain_result =
    Completed poll nat
  | Aborted poll
  | Undefined_Behaviour

definition drain_module :: "config \<Rightarrow> hw \<Rightarrow> nat \<Rightarrow> word_t \<Rightarrow> poll \<Rightarrow> nat \<Rightarrow> drain_result" where
  "drain_module cfg h module nWords s dataWords =
     (if unat nWords < MIN_FIFO_READ cfg then
        if capacity cfg < dataWords + 2 then Undefined_Behaviour
        else Completed (s\<lparr>fifoData := store (fifoData s) dataWords [2, of_nat module]\<rparr>)
               (dataWords + 2)
      else if nWords < 0 then
        if capacity cfg < dataWords + 2 then Undefined_Behaviour
        else Completed ((emit [Console (NegativeFIFOWords module)] s)
                          \<lparr>fifoData := store (fifoData s) dataWords [2, of_nat module]\<rparr>)
               (dataWords + 2)
      else if unat nWords \<ge> EXTERNAL_FIFO_LENGTH cfg then
        Aborted ((emit [Console (FullFIFO module nWords)] s)\<lparr>had_error := True, do_stop_acq := True\<rparr>)
      else
        let partial = partialEvents s ! module;
            start = dataWords + 2;
            buf1 = store (store (fifoData s) (dataWords + 1) [of_nat module]) start partial
        in if capacity cfg < start + length partial then Undefined_Behaviour
           else if \<not> ReadFIFOWords_ok h module then
             Aborted ((emit [Console (ReadFailed module nWords)] (s\<lparr>fifoData := buf1\<rparr>))
                        \<lparr>had_error := True, do_stop_acq := True\<rparr>)
           else if capacity cfg < start + length partial + unat nWords then Undefined_Behaviour
           else
             let buf2 = store buf1 (start + length partial)
                          (window (fifo_words h module) 0 (unat nWords));
                 nWords1 = nWords + of_nat (length partial);
                 stop = start + unat nWords1;
                 st = parse_loop (GetSlotNumber cfg module) module buf2 stop
                        \<lparr>parseWords = start, eventSize = 0, prevEventSize = 0,
                         p_had_error = had_error s, p_log = []\<rparr>;
                 s1 = (emit (p_log st)
                         (s\<lparr>fifoData := buf2,
                            partialEvents := (partialEvents s)[module := []]\<rparr>))
                        \<lparr>had_error := p_had_error st\<rparr>
             in if parseWords st > stop then
                  let missingWords = (of_nat (parseWords st - start - unat nWords1) :: word_t);
                      partialSize = eventSize st - missingWords;
                      fragment = map (\<lambda>i. buf2 (parseWords st - unat (eventSize st) + i))
                                   [0 ..< unat partialSize];
                      nWords2 = nWords1 - partialSize
                  in Completed
                       (s1\<lparr>partialEvents := (partialEvents s1)[module := fragment],
                           fifoData := store buf2 dataWords [nWords2 + 2]\<rparr>)
                       (start + unat nWords2)
                else if parseWords st < stop then
                  (case corruption_dump cfg module buf2 stop st of
                     None \<Rightarrow> Undefined_Behaviour
                   | Some msg \<Rightarrow>
                       Aborted ((emit [Console msg] s1)\<lparr>do_stop_acq := True, had_error := True\<rparr>))
                else
                  Completed (s1\<lparr>fifoData := store buf2 dataWords [nWords1 + 2]\<rparr>)
                    (start + unat nWords1))"

subsection \<open>The loop over the modules and the whole cycle\<close>

fun drain_modules ::
  "config \<Rightarrow> hw \<Rightarrow> word_t list \<Rightarrow> nat list \<Rightarrow> poll \<Rightarrow> nat \<Rightarrow> drain_result" where
  "drain_modules cfg h nWords [] s dataWords = Completed s dataWords"
| "drain_modules cfg h nWords (module # modules) s dataWords =
     (case drain_module cfg h module (nWords ! module) s dataWords of
        Completed s' dataWords' \<Rightarrow> drain_modules cfg h nWords modules s' dataWords'
      | Aborted s' \<Rightarrow> Aborted s'
      | Undefined_Behaviour \<Rightarrow> Undefined_Behaviour)"

text \<open>
  \<open>Poll::ReadScalers\<close> asks the interface for the statistics of each module and hands
  the count rates of its channels to the statistics handler. In the statistics step that
  follows the loop over the modules the duration of the spill is added, and when the dump
  interval has run out the scalers are read, the statistics are dumped and the rates
  cleared.
\<close>

definition ReadScalers :: "config \<Rightarrow> poll \<Rightarrow> poll" where
  "ReadScalers cfg s =
     emit (concat (map (\<lambda>module. [GetStatistics module, StatsSetXiaRates module])
                     [0 ..< n_cards cfg])) s"

definition spill_statistics :: "config \<Rightarrow> hw \<Rightarrow> poll \<Rightarrow> poll" where
  "spill_statistics cfg h s =
     (let s1 = emit [StatsAddTime] s
      in if AddTime h then emit [StatsDump, StatsClearRates] (ReadScalers cfg s1) else s1)"

datatype fifo_result =
    Returned bool poll
  | Undefined

definition ReadFIFO :: "config \<Rightarrow> file_env \<Rightarrow> hw \<Rightarrow> poll \<Rightarrow> fifo_result" where
  "ReadFIFO cfg env h s =
     (if \<not> acq_running s then Returned False s
      else
        let nWords = poll_fifo cfg h (threshWords s) 0
        in if unat (maxWords nWords) > threshWords s \<or> force_spill s then
             (case drain_modules cfg h nWords [0 ..< n_cards cfg] (s\<lparr>force_spill := False\<rparr>) 0 of
                Undefined_Behaviour \<Rightarrow> Undefined
              | Aborted s' \<Rightarrow> Returned False s'
              | Completed s0 dataWords \<Rightarrow>
                  let s1 = spill_statistics cfg h s0;
                      s2 = (if record_data s1
                            then snd (write_data env (fifoData s1) (of_nat dataWords) s1)
                            else s1);
                      s3 = emit (map ClientSend
                                  (broadcast_data (shm_mode s2) (fifoData s2) (of_nat dataWords))) s2
                  in Returned True s3)
           else Returned True s)"

section \<open>Module and channel arguments of the commands\<close>

text \<open>
  The members of \<open>std::string\<close> that \<open>SplitParameterArgs\<close> calls: the position of the
  first character that is not in a given set, and the position of the first occurrence of
  a character; \<open>None\<close> stands for \<open>npos\<close>.
\<close>

fun find_first_not_of :: "string \<Rightarrow> string \<Rightarrow> nat option" where
  "find_first_not_of [] cs = None"
| "find_first_not_of (c # s) cs =
     (if c \<in> set cs then map_option Suc (find_first_not_of s cs) else Some 0)"

fun find_chr :: "string \<Rightarrow> char \<Rightarrow> nat option" where
  "find_chr [] c = None"
| "find_chr (x # s) c = (if x = c then Some 0 else map_option Suc (find_chr s c))"

text \<open>
  \<open>std::stoi\<close> in base 10, as the C++ standard has it: white space is skipped, one sign
  is taken, then the longest run of digits is converted and what follows it is ignored.
  No digit is \<open>invalid_argument\<close>; a value that does not fit \<open>int\<close> is \<open>out_of_range\<close>.
\<close>

datatype stoi_error = invalid_argument | out_of_range

definition isspace :: "char \<Rightarrow> bool" where
  "isspace c = (c \<in> set [CHR '' '', CHR 0x09, CHR 0x0A, CHR 0x0B, CHR 0x0C, CHR 0x0D])"

definition isdigit :: "char \<Rightarrow> bool" where
  "isdigit c = (c \<in> set ''0123456789'')"

definition digit_val :: "char \<Rightarrow> nat" where
  "digit_val c = of_char c - of_char CHR ''0''"

definition digits_value :: "string \<Rightarrow> int" where
  "digits_value ds = foldl (\<lambda>a c. 10 * a + int (digit_val c)) 0 ds"

definition skip_sign :: "string \<Rightarrow> bool \<times> string" where
  "skip_sign s =
     (case s of
        [] \<Rightarrow> (False, s)
      | c # r \<Rightarrow> if c = CHR ''-'' then (True, r) else if c = CHR ''+'' then (False, r)
                 else (False, s))"

definition stoi :: "string \<Rightarrow> stoi_error + int" where
  "stoi str =
     (case skip_sign (dropWhile isspace str) of
        (neg, s) \<Rightarrow>
          let ds = takeWhile isdigit s;
              v = (if neg then - digits_value ds else digits_value ds)
          in if ds = [] then Inl invalid_argument
             else if v < - 2147483648 \<or> 2147483647 < v then Inl out_of_range
             else Inr v)"

text \<open>
  \<open>Poll::SplitParameterArgs\<close>. The arguments \<open>start\<close> and \<open>stop\<close> are the values the
  caller's variables hold at the call, the result holds the values they have at the
  return. Only \<open>invalid_argument\<close> is caught: \<open>out_of_range\<close> leaves the function as an
  exception.
\<close>

datatype split_result =
    Returns bool int int
  | Throws_out_of_range

definition SplitParameterArgs :: "string \<Rightarrow> int \<Rightarrow> int \<Rightarrow> split_result" where
  "SplitParameterArgs arg start stop =
     (if find_first_not_of arg ''-0123456789:'' \<noteq> None then Returns False start stop
      else
        let delimeterPos = find_chr arg CHR '':''
        in case stoi (case delimeterPos of None \<Rightarrow> arg | Some p \<Rightarrow> take p arg) of
             Inl invalid_argument \<Rightarrow> Returns False start stop
           | Inl out_of_range \<Rightarrow> Throws_out_of_range
           | Inr a \<Rightarrow>
               (case delimeterPos of
                  None \<Rightarrow> Returns True a a
                | Some p \<Rightarrow>
                    (case stoi (drop (p + 1) arg) of
                       Inl invalid_argument \<Rightarrow> Returns False a stop
                     | Inl out_of_range \<Rightarrow> Throws_out_of_range
                     | Inr b \<Rightarrow>
                         if a < 0 \<or> b < 0 \<or> a > b then Returns False a b
                         else Returns True a b)))"

section \<open>Auxiliary notions for the statements\<close>

text \<open>
  Datagram \<open>i\<close> (from 0) of a chunked broadcast that still has \<open>r\<close> words to send
  from position \<open>pos\<close>, with \<open>c\<close> as total and \<open>k\<close> as the running chunk number.
\<close>

definition chunk_of ::
  "(nat \<Rightarrow> word_t) \<Rightarrow> word_t \<Rightarrow> word_t \<Rightarrow> nat \<Rightarrow> nat \<Rightarrow> nat \<Rightarrow> word_t list" where
  "chunk_of data c k pos r i =
     [k + of_nat i, c] @ window data (pos + 4050 * i) (min 4050 (r - 4050 * i))"

text \<open>
  The trace a drain result carries, the events that put data on disk or on the network,
  and the events that the parsing loop and the diagnostics of a drain cycle produce.
\<close>

definition result_trace :: "drain_result \<Rightarrow> io_event list" where
  "result_trace r =
     (case r of Completed s d \<Rightarrow> trace s | Aborted s \<Rightarrow> trace s | Undefined_Behaviour \<Rightarrow> [])"

fun is_emission :: "io_event \<Rightarrow> bool" where
  "is_emission (FileWritten ws) = True"
| "is_emission (ClientSend msg) = True"
| "is_emission e = False"

fun is_parse_event :: "io_event \<Rightarrow> bool" where
  "is_parse_event (Console (ParseError e)) = True"
| "is_parse_event (StatsAddEvent m c b) = True"
| "is_parse_event e = False"

text \<open>
  For a module that is read: the spill buffer after the copy of the partial event and the
  read of the FIFO, the position where its words end, and the state in which the parsing
  loop stops.
\<close>

definition spill_buffer :: "hw \<Rightarrow> nat \<Rightarrow> word_t \<Rightarrow> poll \<Rightarrow> nat \<Rightarrow> (nat \<Rightarrow> word_t)" where
  "spill_buffer h m nWords s dataWords =
     store (store (store (fifoData s) (dataWords + 1) [of_nat m]) (dataWords + 2)
              (partialEvents s ! m))
        (dataWords + 2 + length (partialEvents s ! m))
        (window (fifo_words h m) 0 (unat nWords))"

definition spill_stop :: "nat \<Rightarrow> word_t \<Rightarrow> poll \<Rightarrow> nat \<Rightarrow> nat" where
  "spill_stop m nWords s dataWords =
     dataWords + 2 + unat (nWords + of_nat (length (partialEvents s ! m)))"

definition parse_result :: "config \<Rightarrow> hw \<Rightarrow> nat \<Rightarrow> word_t \<Rightarrow> poll \<Rightarrow> nat \<Rightarrow> parse_state" where
  "parse_result cfg h m nWords s dataWords =
     parse_loop (GetSlotNumber cfg m) m (spill_buffer h m nWords s dataWords)
       (spill_stop m nWords s dataWords)
       \<lparr>parseWords = dataWords + 2, eventSize = 0, prevEventSize = 0,
        p_had_error = had_error s, p_log = []\<rparr>"

text \<open>
  The words module \<open>m\<close> takes out of its FIFO in a drain cycle: none when the module is
  skipped, otherwise the \<open>nWords\<close> words read.
\<close>

definition consumed :: "config \<Rightarrow> hw \<Rightarrow> nat \<Rightarrow> word_t \<Rightarrow> word_t list" where
  "consumed cfg h m nWords =
     (if unat nWords < MIN_FIFO_READ cfg then [] else window (fifo_words h m) 0 (unat nWords))"

text \<open>
  The layout of a spill, read back from the buffer: section \<open>k\<close> after position \<open>pos\<close>
  starts where the header words of the sections before it say, and the payload of a
  section is what follows its two header words.
\<close>

fun sect_pos :: "(nat \<Rightarrow> word_t) \<Rightarrow> nat \<Rightarrow> nat \<Rightarrow> nat" where
  "sect_pos buf pos 0 = pos"
| "sect_pos buf pos (Suc k) = sect_pos buf (pos + unat (buf pos)) k"

definition payload :: "(nat \<Rightarrow> word_t) \<Rightarrow> nat \<Rightarrow> word_t list" where
  "payload buf p = window buf (p + 2) (unat (buf p) - 2)"

text \<open>
  Words that are made of whole events: each event begins with a word whose size field
  gives the length of the event, which is not 0, and the events follow one another to the
  end of the list.
\<close>

function whole_events :: "word_t list \<Rightarrow> bool" where
  "whole_events ws =
     (if ws = [] then True
      else if eventSize_of (hd ws) = 0 \<or> length ws < unat (eventSize_of (hd ws)) then False
      else whole_events (drop (unat (eventSize_of (hd ws))) ws))"
  by pat_completeness auto
termination
proof (relation "measure length")
  show "wf (measure length)" by simp
next
  fix ws :: "word_t list"
  assume a: "ws \<noteq> []"
    "\<not> (eventSize_of (hd ws) = 0 \<or> length ws < unat (eventSize_of (hd ws)))"
  then have "0 < unat (eventSize_of (hd ws))" by (simp add: unat_gt_0)
  with a(1) show "(drop (unat (eventSize_of (hd ws))) ws, ws) \<in> measure length" by simp
qed

declare whole_events.simps [simp del]

text \<open>
  A partial event: no word at all, or the first words of an event, fewer than the size
  field of its first word says. The words that the size field counts and that are not
  there are the missing words.
\<close>

definition partial_event :: "word_t list \<Rightarrow> bool" where
  "partial_event p = (p = [] \<or> length p < unat (eventSize_of (hd p)))"

text \<open>
  What the partial events satisfy between the drain cycles of a run: there is one per
  module, and each is a partial event.
\<close>

definition partials_ok :: "config \<Rightarrow> poll \<Rightarrow> bool" where
  "partials_ok cfg s =
     (length (partialEvents s) = n_cards cfg \<and> list_all partial_event (partialEvents s))"

text \<open>The spill a completed drain puts in the buffer, and the partial events it leaves.\<close>

definition spill_view :: "drain_result \<Rightarrow> (word_t list \<times> word_t list list) option" where
  "spill_view r =
     (case r of Completed s d \<Rightarrow> Some (window (fifoData s) 0 d, partialEvents s)
      | Aborted s \<Rightarrow> None | Undefined_Behaviour \<Rightarrow> None)"

definition two_spills ::
  "config \<Rightarrow> hw \<Rightarrow> word_t list \<Rightarrow> hw \<Rightarrow> word_t list \<Rightarrow> poll
     \<Rightarrow> (word_t list \<times> word_t list list) option \<times> (word_t list \<times> word_t list list) option" where
  "two_spills cfg h1 nWords1 h2 nWords2 s =
     (case drain_modules cfg h1 nWords1 [0 ..< n_cards cfg] s 0 of
        Completed s1 d1 \<Rightarrow>
          (spill_view (Completed s1 d1),
           spill_view (drain_modules cfg h2 nWords2 [0 ..< n_cards cfg] s1 0))
      | Aborted s1 \<Rightarrow> (None, None)
      | Undefined_Behaviour \<Rightarrow> (None, None))"

text \<open>
  What a completed drain cycle, taking the state \<open>s\<close> to \<open>s'\<close>, leaves for module
  \<open>m\<close> in the section at position \<open>p\<close>: a header of at least 2, the module number, and
  a payload of whole events that together with the new partial event, which is a partial
  event, is the old partial event followed by the words taken from the FIFO; a skipped
  module gets the header 2 and keeps its partial event.
\<close>

definition section_ok ::
  "config \<Rightarrow> hw \<Rightarrow> word_t list \<Rightarrow> poll \<Rightarrow> poll \<Rightarrow> nat \<Rightarrow> nat \<Rightarrow> bool" where
  "section_ok cfg h nWords s s' p m =
     (2 \<le> unat (fifoData s' p) \<and>
      fifoData s' (p + 1) = of_nat m \<and>
      payload (fifoData s') p @ partialEvents s' ! m
        = partialEvents s ! m @ consumed cfg h m (nWords ! m) \<and>
      (unat (nWords ! m) < MIN_FIFO_READ cfg \<longrightarrow>
         fifoData s' p = 2 \<and> partialEvents s' ! m = partialEvents s ! m) \<and>
      whole_events (payload (fifoData s') p) \<and>
      partial_event (partialEvents s' ! m))"

section \<open>Concrete states and inputs\<close>

text \<open>
  The state that the constructor of \<open>Poll\<close> and \<open>Poll::Initialize\<close> leave behind for
  \<open>n\<close> modules: every flag cleared, run number 1, no file open, one empty partial event
  per module. The polling threshold is set by a command and is a parameter here.
\<close>

definition Poll_initial :: "nat \<Rightarrow> nat \<Rightarrow> poll" where
  "Poll_initial n thresh =
     \<lparr>acq_running = False, force_spill = False, had_error = False, do_stop_acq = False,
      record_data = False, shm_mode = False, file_open = False, threshWords = thresh,
      next_run_num = 1,
      output_file = \<lparr>is_open = False, filesize = 0, sub_file = 0\<rparr>,
      partialEvents = replicate n [], fifoData = (\<lambda>i. 0), trace = []\<rparr>"

text \<open>
  A crate with the FIFO capacity named by the spec, 131072 words, a minimum read of 9
  words, and module \<open>m\<close> sitting in slot \<open>m + 2\<close>.
\<close>

definition crate :: "nat \<Rightarrow> config" where
  "crate n = \<lparr>n_cards = n, MIN_FIFO_READ = 9, EXTERNAL_FIFO_LENGTH = 131072,
              GetSlotNumber = (\<lambda>m. of_nat m + 2)\<rparr>"

text \<open>A file system on which every file can be opened and starts with 65552 bytes.\<close>

definition disk :: file_env where
  "disk = \<lparr>path_writable = True, fresh_filesize = 65552, next_free_run = Suc\<rparr>"

text \<open>
  Hardware whose modules all report \<open>n\<close> words at every polling attempt, whose reads
  succeed, and whose FIFOs hand out the words \<open>ws\<close> followed by zeros; the dump interval
  of the statistics has not run out.
\<close>

definition steady_hw :: "word_t \<Rightarrow> word_t list \<Rightarrow> hw" where
  "steady_hw n ws =
     \<lparr>CheckFIFOWords = (\<lambda>t m. n), ReadFIFOWords_ok = (\<lambda>m. True),
      fifo_words = (\<lambda>m i. if i < length ws then ws ! i else 0), AddTime = False\<rparr>"

text \<open>
  Nine words in the FIFO of module 0 (slot 2): an event of eight words for channel 0, then
  the first word of an event of four words, whose other three words have not arrived yet.
\<close>

definition cut_event_hw :: hw where
  "cut_event_hw = steady_hw 9 [0x00100020, 0, 0, 0, 0, 0, 0, 0, 0x00080020]"

text \<open>A freshly started acquisition on one module with the polling threshold at 0.\<close>

definition running_poll :: poll where
  "running_poll = (Poll_initial 1 0)\<lparr>acq_running := True\<rparr>"

text \<open>
  The next nine words of that FIFO: the three outstanding words of the cut event, then an
  event of six words.
\<close>

definition rest_event_hw :: hw where
  "rest_event_hw = steady_hw 9 [0, 0, 0, 0x000C0020, 0, 0, 0, 0, 0]"




text \<open>
  The nine words of the cut event at a moment when the dump interval of the statistics has
  run out, and a run that records to a file which holds 65552 bytes so far.
\<close>

definition due_hw :: hw where
  "due_hw = cut_event_hw\<lparr>AddTime := True\<rparr>"

definition recording_poll :: poll where
  "recording_poll =
     running_poll\<lparr>record_data := True, file_open := True,
                  output_file := \<lparr>is_open = True, filesize = 65552, sub_file = 0\<rparr>\<rparr>"

text \<open>
  The decimal numeral of a natural number, as a user types it (no sign, no leading zero
  but for 0 itself).
\<close>

definition digit_char :: "nat \<Rightarrow> char" where
  "digit_char d = ''0123456789'' ! d"

function decimal :: "nat \<Rightarrow> string" where
  "decimal n =
     (if n < 10 then [digit_char n] else decimal (n div 10) @ [digit_char (n mod 10)])"
  by pat_completeness auto
termination
  by (relation "measure id") auto

declare decimal.simps [simp del]

section \<open>Chunked broadcast: the datagrams of a spill\<close>

lemma bcast_full_step:
  fixes n wb :: word_t
  assumes "wb < n" "4050 < n - wb"
  shows "unat (wb + 4050) = unat wb + 4050" "unat (n - (wb + 4050)) = unat (n - wb) - 4050"
    "4050 < unat (n - wb)" "wb + 4050 \<le> n"
proof -
  have a: "unat (n - wb) = unat n - unat wb" "4050 < unat n - unat wb"
    using assms by (simp_all add: word_less_nat_alt word_le_nat_alt unat_sub)
  have "unat n < 2 ^ LENGTH(32)" by (rule unsigned_less)
  then have b: "unat wb + 4050 < 2 ^ 32" using a by simp
  then show c: "unat (wb + 4050) = unat wb + 4050" by (simp add: unat_word_ariths)
  show "4050 < unat (n - wb)" using a by simp
  show d: "wb + 4050 \<le> n" using a c by (simp add: word_le_nat_alt)
  show "unat (n - (wb + 4050)) = unat (n - wb) - 4050" using a c d by (simp add: unat_sub)
qed

lemma bcast_last_step:
  fixes n wb :: word_t
  assumes "wb < n" "\<not> 4050 < n - wb"
  shows "0 < unat (n - wb)" "unat (n - wb) \<le> 4050"
  using assms by (simp_all add: word_less_nat_alt word_le_nat_alt not_less unat_sub)

lemma upt_div_step: "4050 < (r::nat) \<Longrightarrow> [0..<(r + 4049) div 4050] = 0 # map Suc [0..<(r - 4050 + 4049) div 4050]"
proof -
  assume h: "4050 < r"
  have "r + 4049 = (r - 4050 + 4049) + 4050" using h by simp
  then have "(r + 4049) div 4050 = ((r - 4050 + 4049) + 4050) div 4050" by simp
  also have "\<dots> = Suc ((r - 4050 + 4049) div 4050)" by simp
  finally have "(r + 4049) div 4050 = Suc ((r - 4050 + 4049) div 4050)" .
  then show ?thesis by (simp add: upt_conv_Cons map_Suc_upt del: upt_Suc)
qed

lemma div_last_chunk: "0 < (r::nat) \<Longrightarrow> r \<le> 4050 \<Longrightarrow> (r + 4049) div 4050 = 1"
proof -
  assume h: "0 < r" "r \<le> 4050"
  have "r + 4049 = (r - 1) + 4050" using h by simp
  then have "(r + 4049) div 4050 = ((r - 1) + 4050) div 4050" by simp
  also have "\<dots> = Suc ((r - 1) div 4050)" by simp
  also have "(r - 1) div 4050 = 0" using h by simp
  finally show ?thesis by simp
qed

lemma shm_loop_closed:
  "words_bcast \<le> nWords \<Longrightarrow>
   shm_loop data nWords c k words_bcast =
     map (chunk_of data c k (unat words_bcast) (unat (nWords - words_bcast)))
       [0..<(unat (nWords - words_bcast) + 4049) div 4050]"
proof (induction data nWords c k words_bcast rule: shm_loop.induct)
  case (1 data nWords c k wb)
  show ?case
  proof (cases "wb < nWords")
    case False
    with 1(3) have "wb = nWords" by simp
    then show ?thesis by (subst shm_loop.simps) simp
  next
    case lt: True
    show ?thesis
    proof (cases "nWords - wb > maxShmSizeL")
      case True
      then have gt: "nWords - wb > 4050" by (simp add: maxShmSizeL_def)
      note f = bcast_full_step[OF lt gt]
      have le': "wb + maxShmSizeL \<le> nWords" using f(4) by (simp add: maxShmSizeL_def)
      have ih: "shm_loop data nWords c (k + 1) (wb + maxShmSizeL) =
        map (chunk_of data c (k + 1) (unat wb + 4050) (unat (nWords - wb) - 4050))
         [0..<(unat (nWords - wb) - 4050 + 4049) div 4050]"
        using 1(1)[OF lt True le'] f(1,2) by (simp add: maxShmSizeL_def)
      have step: "\<And>i. chunk_of data c (k + 1) (unat wb + 4050) (unat (nWords - wb) - 4050) i
          = chunk_of data c k (unat wb) (unat (nWords - wb)) (Suc i)"
        by (simp add: chunk_of_def algebra_simps)
      have hd: "chunk_of data c k (unat wb) (unat (nWords - wb)) 0 = [k, c] @ window data (unat wb) 4050"
        using f(3) by (simp add: chunk_of_def)
      have "shm_loop data nWords c k wb =
          ([k, c] @ window data (unat wb) 4050) # shm_loop data nWords c (k + 1) (wb + maxShmSizeL)"
        using lt True by (subst shm_loop.simps) (simp add: maxShmSizeL_def)
      also have "\<dots> = map (chunk_of data c k (unat wb) (unat (nWords - wb))) (0 # map Suc [0..<(unat (nWords - wb) - 4050 + 4049) div 4050])"
        unfolding ih by (simp add: step hd comp_def del: upt_Suc)
      finally show ?thesis using upt_div_step[OF f(3)] by simp
    next
      case False
      then have ngt: "\<not> nWords - wb > 4050" by (simp add: maxShmSizeL_def)
      note f = bcast_last_step[OF lt ngt]
      have one: "(unat (nWords - wb) + 4049) div 4050 = 1" using f by (rule div_last_chunk)
      have "shm_loop data nWords c (k + 1) (wb + (nWords - wb)) = []"
        by (subst shm_loop.simps) simp
      then have "shm_loop data nWords c k wb =
          [[k, c] @ window data (unat wb) (unat (nWords - wb))]"
        using lt False by (subst shm_loop.simps) simp
      then show ?thesis using f by (simp add: one chunk_of_def)
    qed
  qed
qed
lemma ceil_qr:
  fixes q r :: nat
  assumes "r < 4050"
  shows "(r + q * 4050 + 4049) div 4050 = q + (if r = 0 then 0 else 1)"
proof -
  have "(r + q * 4050 + 4049) div 4050 = ((r + 4049) + q * 4050) div 4050"
    by (simp only: ac_simps)
  also have "\<dots> = q + (r + 4049) div 4050" by (rule div_mult_self1) simp
  also have "(r + 4049) div 4050 = (if r = 0 then 0 else 1)"
  proof (cases "r = 0")
    case True then show ?thesis by simp
  next
    case False
    then have "0 < r" "r \<le> 4050" using assms by simp_all
    from div_last_chunk[OF this] False show ?thesis by simp
  qed
  finally show ?thesis .
qed

lemma ceil_4050: "((n::nat) + 4049) div 4050 = n div 4050 + (if n mod 4050 = 0 then 0 else 1)"
proof -
  have r: "n mod 4050 < 4050" by simp
  have n: "n mod 4050 + n div 4050 * 4050 = n" by (rule mod_div_mult_eq)
  show ?thesis using ceil_qr[OF r, of "n div 4050"] unfolding n .
qed

lemma ceil_4050_ge: "(n::nat) \<le> 4050 * ((n + 4049) div 4050)"
proof -
  have r: "n mod 4050 < 4050" by simp
  have n: "n mod 4050 + n div 4050 * 4050 = n" by (rule mod_div_mult_eq)
  have g: "\<And>q r::nat. r < 4050 \<Longrightarrow> r + q * 4050 \<le> 4050 * (q + (if r = 0 then 0 else 1))"
    by simp
  show ?thesis using g[OF r, of "n div 4050"] unfolding n ceil_4050 .
qed

lemma num_net_chunks_eq:
  fixes nWords :: word_t
  shows "(if nWords mod 4050 \<noteq> 0 then nWords div 4050 + 1 else nWords div 4050)
         = of_nat ((unat nWords + 4049) div 4050)"
proof -
  have m: "unat (nWords mod 4050) = unat nWords mod 4050" by (simp add: unat_mod)
  have z: "(nWords mod 4050 = 0) = (unat nWords mod 4050 = 0)"
    unfolding m[symmetric] by (simp only: unat_0_iff)
  have dv: "nWords div 4050 = of_nat (unat nWords div 4050)"
    using word_arith_nat_div[of nWords 4050] by simp
  show ?thesis unfolding ceil_4050 z dv by simp
qed
lemma shm_chunks_closed:
  "shm_chunks data nWords =
     map (chunk_of data (of_nat ((unat nWords + 4049) div 4050)) 1 0 (unat nWords))
       [0..<(unat nWords + 4049) div 4050]"
proof -
  have "shm_chunks data nWords = shm_loop data nWords (of_nat ((unat nWords + 4049) div 4050)) 1 0"
    unfolding shm_chunks_def Let_def maxShmSizeL_def num_net_chunks_eq ..
  then show ?thesis using shm_loop_closed[of 0 nWords data _ 1] by simp
qed

lemma window_append: "window d p a @ window d (p + a) b = window d p (a + b)"
proof -
  have "[p..<p + a + b] = [p..<p + a] @ [p + a..<p + a + b]"
    by (rule upt_add_eq_append) simp
  then show ?thesis unfolding window_def by (simp only: map_append add.assoc)
qed

lemma length_window [simp]: "length (window d p n) = n"
  by (simp add: window_def)

lemma window_0 [simp]: "window d p 0 = []"
  by (simp add: window_def)

lemma concat_windows:
  "concat (map (\<lambda>i. window data (4050 * i) (min 4050 (n - 4050 * i))) [0..<m]) = window data 0 (min n (4050 * m))"
proof (induction m)
  case 0
  then show ?case by simp
next
  case (Suc m)
  let ?a = "min n (4050 * m)" and ?b = "min 4050 (n - 4050 * m)"
  have s: "?a + ?b = min n (4050 * m + 4050)" by linarith
  have w: "window data (4050 * m) ?b = window data (0 + ?a) ?b"
  proof (cases "n \<le> 4050 * m")
    case True
    then have "?b = 0" by simp
    then show ?thesis by simp
  next
    case False
    then have "?a = 4050 * m" by simp
    then show ?thesis by simp
  qed
  have "concat (map (\<lambda>i. window data (4050 * i) (min 4050 (n - 4050 * i))) [0..<Suc m])
      = window data 0 ?a @ window data (4050 * m) ?b"
    using Suc by simp
  also have "\<dots> = window data 0 (?a + ?b)" unfolding w by (rule window_append)
  also have "\<dots> = window data 0 (min n (4050 * Suc m))" unfolding s by (simp add: add.commute)
  finally show ?case .
qed

lemma chunk_sizes_qr:
  fixes n q r m :: nat
  assumes "r < 4050" "n = r + q * 4050" "m = q + (if r = 0 then 0 else 1)"
  shows "0 < n \<Longrightarrow> min 4050 (n - 4050 * (m - 1)) = (if r = 0 then 4050 else r)"
    and "Suc i < m \<Longrightarrow> min 4050 (n - 4050 * i) = 4050"
  using assms by (auto split: if_splits)

lemma chunk_sizes:
  fixes n :: nat
  shows "0 < n \<Longrightarrow> min 4050 (n - 4050 * ((n + 4049) div 4050 - 1)) = (if n mod 4050 = 0 then 4050 else n mod 4050)"
    and "Suc i < (n + 4049) div 4050 \<Longrightarrow> min 4050 (n - 4050 * i) = 4050"
proof -
  have r: "n mod 4050 < 4050" by simp
  have n: "n = n mod 4050 + n div 4050 * 4050" by simp
  show "0 < n \<Longrightarrow> min 4050 (n - 4050 * ((n + 4049) div 4050 - 1)) = (if n mod 4050 = 0 then 4050 else n mod 4050)"
    by (rule chunk_sizes_qr(1)[OF r n ceil_4050])
  show "Suc i < (n + 4049) div 4050 \<Longrightarrow> min 4050 (n - 4050 * i) = 4050"
    by (rule chunk_sizes_qr(2)[OF r n ceil_4050])
qed

section \<open>Events added to the trace\<close>

lemma trace_emit [simp]: "trace (emit es s) = trace s @ es"
  by (simp add: emit_def)

lemma emit_fields [simp]:
  "output_file (emit es s) = output_file s"
  "had_error (emit es s) = had_error s"
  "do_stop_acq (emit es s) = do_stop_acq s"
  "record_data (emit es s) = record_data s"
  "file_open (emit es s) = file_open s"
  "partialEvents (emit es s) = partialEvents s"
  "fifoData (emit es s) = fifoData s"
  "shm_mode (emit es s) = shm_mode s"
  "next_run_num (emit es s) = next_run_num s"
  "acq_running (emit es s) = acq_running s"
  "force_spill (emit es s) = force_spill s"
  "threshWords (emit es s) = threshWords s"
  by (simp_all add: emit_def)

section \<open>One module of a drain cycle: the branches taken\<close>

lemma word_not_negative: "\<not> (w < (0 :: word_t))"
  by simp

lemma drain_module_skip:
  assumes "unat nWords < MIN_FIFO_READ cfg"
  shows "drain_module cfg h m nWords s dataWords =
           (if capacity cfg < dataWords + 2 then Undefined_Behaviour
            else Completed (s\<lparr>fifoData := store (fifoData s) dataWords [2, of_nat m]\<rparr>)
                   (dataWords + 2))"
  using assms by (simp add: drain_module_def)

lemma drain_module_empty:
  assumes "unat nWords < MIN_FIFO_READ cfg" and "dataWords + 2 \<le> capacity cfg"
  shows "drain_module cfg h m nWords s dataWords =
           Completed (s\<lparr>fifoData := store (fifoData s) dataWords [2, of_nat m]\<rparr>) (dataWords + 2)"
  using assms by (simp add: drain_module_def)

lemma drain_module_fits:
  assumes "drain_module cfg h m nWords s dataWords \<noteq> Undefined_Behaviour"
  shows "unat nWords < MIN_FIFO_READ cfg \<Longrightarrow> dataWords + 2 \<le> capacity cfg"
    and "MIN_FIFO_READ cfg \<le> unat nWords \<Longrightarrow> unat nWords < EXTERNAL_FIFO_LENGTH cfg \<Longrightarrow>
           dataWords + 2 + length (partialEvents s ! m) \<le> capacity cfg"
    and "MIN_FIFO_READ cfg \<le> unat nWords \<Longrightarrow> unat nWords < EXTERNAL_FIFO_LENGTH cfg \<Longrightarrow>
           ReadFIFOWords_ok h m \<Longrightarrow>
           dataWords + 2 + length (partialEvents s ! m) + unat nWords \<le> capacity cfg"
proof -
  show "unat nWords < MIN_FIFO_READ cfg \<Longrightarrow> dataWords + 2 \<le> capacity cfg"
    using assms by (simp add: drain_module_def split: if_splits)
  show "MIN_FIFO_READ cfg \<le> unat nWords \<Longrightarrow> unat nWords < EXTERNAL_FIFO_LENGTH cfg \<Longrightarrow>
           dataWords + 2 + length (partialEvents s ! m) \<le> capacity cfg"
  proof (rule ccontr)
    assume a: "MIN_FIFO_READ cfg \<le> unat nWords" "unat nWords < EXTERNAL_FIFO_LENGTH cfg"
      "\<not> dataWords + 2 + length (partialEvents s ! m) \<le> capacity cfg"
    then have "drain_module cfg h m nWords s dataWords = Undefined_Behaviour"
      by (simp add: drain_module_def Let_def not_less not_le)
    with assms show False by simp
  qed
  show "MIN_FIFO_READ cfg \<le> unat nWords \<Longrightarrow> unat nWords < EXTERNAL_FIFO_LENGTH cfg \<Longrightarrow>
           ReadFIFOWords_ok h m \<Longrightarrow>
           dataWords + 2 + length (partialEvents s ! m) + unat nWords \<le> capacity cfg"
  proof (rule ccontr)
    assume a: "MIN_FIFO_READ cfg \<le> unat nWords" "unat nWords < EXTERNAL_FIFO_LENGTH cfg"
      "ReadFIFOWords_ok h m"
      "\<not> dataWords + 2 + length (partialEvents s ! m) + unat nWords \<le> capacity cfg"
    then have "drain_module cfg h m nWords s dataWords = Undefined_Behaviour"
      by (simp add: drain_module_def Let_def not_less not_le)
    with assms show False by simp
  qed
qed

lemma drain_module_full:
  assumes "MIN_FIFO_READ cfg \<le> unat nWords" and "EXTERNAL_FIFO_LENGTH cfg \<le> unat nWords"
  shows "drain_module cfg h m nWords s dataWords =
           Aborted ((emit [Console (FullFIFO m nWords)] s)\<lparr>had_error := True, do_stop_acq := True\<rparr>)"
  using assms by (simp add: drain_module_def not_less)

lemma parse_loop_log:
  assumes "\<forall>e \<in> set (p_log st). is_parse_event e"
  shows "\<forall>e \<in> set (p_log (parse_loop slotExpected m buf stop st)). is_parse_event e"
  using assms
proof (induction slotExpected m buf stop st rule: parse_loop.induct)
  case (1 slotExpected m buf stop st)
  show ?case
  proof (cases "parseWords st < stop")
    case False
    then show ?thesis using 1(2) by (subst parse_loop.simps) simp
  next
    case lt: True
    show ?thesis
    proof (cases "p_had_error st \<or> event_errors slotExpected (buf (parseWords st)) \<noteq> []")
      case True
      then show ?thesis using lt 1(2) by (subst parse_loop.simps) auto
    next
      case False
      have "\<forall>e\<in>set (p_log (parse_loop slotExpected m buf stop
              (st\<lparr>eventSize := eventSize_of (buf (parseWords st)),
                  prevEventSize := eventSize_of (buf (parseWords st)),
                  parseWords := parseWords st + unat (eventSize_of (buf (parseWords st))),
                  p_log := p_log st @
                    (if \<not> virtualChannel (buf (parseWords st))
                     then [StatsAddEvent m (chanRead (buf (parseWords st)))
                             (4 * unat (eventSize_of (buf (parseWords st))))]
                     else [])\<rparr>))). is_parse_event e"
        by (rule 1(1)[OF lt False]) (use 1(2) in auto)
      then show ?thesis using lt False by (subst parse_loop.simps) simp
    qed
  qed
qed

lemma is_parse_event_not:
  assumes "is_parse_event e"
  shows "\<not> is_emission e" "e \<noteq> Console (NegativeFIFOWords k)" "e \<noteq> Console (FullFIFO k w)"
  using assms by (cases e rule: is_parse_event.cases; simp)+

lemma drain_module_read:
  assumes "MIN_FIFO_READ cfg \<le> unat nWords" and "unat nWords < EXTERNAL_FIFO_LENGTH cfg"
    and "ReadFIFOWords_ok h m"
    and "dataWords + 2 + length (partialEvents s ! m) + unat nWords \<le> capacity cfg"
  shows "drain_module cfg h m nWords s dataWords =
    (let buf = spill_buffer h m nWords s dataWords;
         stop = spill_stop m nWords s dataWords;
         st = parse_result cfg h m nWords s dataWords;
         nWords1 = nWords + of_nat (length (partialEvents s ! m));
         s1 = (emit (p_log st)
                 (s\<lparr>fifoData := buf, partialEvents := (partialEvents s)[m := []]\<rparr>))
                \<lparr>had_error := p_had_error st\<rparr>
     in if parseWords st > stop then
          let partialSize = eventSize st - of_nat (parseWords st - (dataWords + 2) - unat nWords1);
              nWords2 = nWords1 - partialSize
          in Completed
               (s1\<lparr>partialEvents := (partialEvents s1)
                      [m := map (\<lambda>i. buf (parseWords st - unat (eventSize st) + i))
                              [0 ..< unat partialSize]],
                   fifoData := store buf dataWords [nWords2 + 2]\<rparr>)
               (dataWords + 2 + unat nWords2)
        else if parseWords st < stop then
          (case corruption_dump cfg m buf stop st of
             None \<Rightarrow> Undefined_Behaviour
           | Some msg \<Rightarrow>
               Aborted ((emit [Console msg] s1)\<lparr>do_stop_acq := True, had_error := True\<rparr>))
        else Completed (s1\<lparr>fifoData := store buf dataWords [nWords1 + 2]\<rparr>)
               (dataWords + 2 + unat nWords1))"
proof -
  have c: "\<not> unat nWords < MIN_FIFO_READ cfg" "\<not> nWords < 0"
    "\<not> EXTERNAL_FIFO_LENGTH cfg \<le> unat nWords" "\<not> \<not> ReadFIFOWords_ok h m"
    "\<not> capacity cfg < dataWords + 2 + length (partialEvents s ! m)"
    "\<not> capacity cfg < dataWords + 2 + length (partialEvents s ! m) + unat nWords"
    using assms by simp_all
  show ?thesis
    unfolding drain_module_def spill_buffer_def spill_stop_def parse_result_def Let_def
    by (simp only: c if_False)
qed

lemma drain_module_read_failed:
  assumes "MIN_FIFO_READ cfg \<le> unat nWords" and "unat nWords < EXTERNAL_FIFO_LENGTH cfg"
    and "\<not> ReadFIFOWords_ok h m"
    and "dataWords + 2 + length (partialEvents s ! m) \<le> capacity cfg"
  shows "drain_module cfg h m nWords s dataWords =
    Aborted ((emit [Console (ReadFailed m nWords)]
                (s\<lparr>fifoData := store (store (fifoData s) (dataWords + 1) [of_nat m])
                                  (dataWords + 2) (partialEvents s ! m)\<rparr>))
               \<lparr>had_error := True, do_stop_acq := True\<rparr>)"
  using assms by (simp add: drain_module_def Let_def not_less)

lemma parse_result_log: "\<forall>e \<in> set (p_log (parse_result cfg h m nWords s dataWords)). is_parse_event e"
  unfolding parse_result_def by (rule parse_loop_log) simp

lemma corruption_dump_Some:
  assumes "corruption_dump cfg m buf stop st = Some msg"
  shows "\<exists>a b c. msg = CorruptedData m a b c"
  using assms by (auto simp: corruption_dump_def Let_def split: option.splits)

lemma drain_module_trace:
  assumes "drain_module cfg h m nWords s dataWords = r" and "r \<noteq> Undefined_Behaviour"
  shows "\<exists>evs. result_trace r = trace s @ evs \<and>
           (\<forall>e \<in> set evs. \<not> is_emission e \<and> e \<noteq> Console (NegativeFIFOWords k) \<and>
              (unat nWords < EXTERNAL_FIFO_LENGTH cfg \<longrightarrow> e \<noteq> Console (FullFIFO k w)))"
proof -
  have "drain_module cfg h m nWords s dataWords \<noteq> Undefined_Behaviour"
    using assms by simp
  note fits = drain_module_fits[OF this]
  consider (empty) "unat nWords < MIN_FIFO_READ cfg"
    | (full) "MIN_FIFO_READ cfg \<le> unat nWords" "EXTERNAL_FIFO_LENGTH cfg \<le> unat nWords"
    | (failed) "MIN_FIFO_READ cfg \<le> unat nWords" "unat nWords < EXTERNAL_FIFO_LENGTH cfg"
        "\<not> ReadFIFOWords_ok h m"
    | (read) "MIN_FIFO_READ cfg \<le> unat nWords" "unat nWords < EXTERNAL_FIFO_LENGTH cfg"
        "ReadFIFOWords_ok h m"
    by linarith
  then show ?thesis
  proof cases
    case empty
    from drain_module_empty[OF empty fits(1)[OF empty], where h=h and m=m and s=s] assms(1)
    have "result_trace r = trace s @ []" by (auto simp: result_trace_def)
    then show ?thesis by (intro exI[of _ "[]"]) simp
  next
    case full
    from drain_module_full[OF full, where h=h and m=m and s=s and dataWords=dataWords] assms(1)
    have "result_trace r = trace s @ [Console (FullFIFO m nWords)]"
      by (auto simp: result_trace_def)
    then show ?thesis using full by (intro exI[of _ "[Console (FullFIFO m nWords)]"]) simp
  next
    case failed
    from drain_module_read_failed[OF failed fits(2)[OF failed(1,2)]] assms(1)
    have "result_trace r = trace s @ [Console (ReadFailed m nWords)]"
      by (auto simp: result_trace_def)
    then show ?thesis by (intro exI[of _ "[Console (ReadFailed m nWords)]"]) simp
  next
    case read
    let ?st = "parse_result cfg h m nWords s dataWords"
    let ?buf = "spill_buffer h m nWords s dataWords"
    let ?stop = "spill_stop m nWords s dataWords"
    have lg: "\<forall>e \<in> set (p_log ?st). \<not> is_emission e \<and> e \<noteq> Console (NegativeFIFOWords k) \<and>
        e \<noteq> Console (FullFIFO k w)"
      using parse_result_log[of cfg h m nWords s dataWords] is_parse_event_not by blast
    note dm = drain_module_read[OF read fits(3)[OF read]]
    show ?thesis
    proof (cases "parseWords ?st < ?stop")
      case False
      then have "result_trace r = trace s @ p_log ?st"
        using assms(1) unfolding dm by (auto simp: result_trace_def Let_def)
      then show ?thesis using lg by (intro exI[of _ "p_log ?st"]) simp
    next
      case True
      then obtain msg where msg: "corruption_dump cfg m ?buf ?stop ?st = Some msg"
        using assms unfolding dm by (auto simp: Let_def split: option.splits)
      then obtain a b c where c: "msg = CorruptedData m a b c"
        using corruption_dump_Some by blast
      have "result_trace r = trace s @ (p_log ?st @ [Console msg])"
        using assms(1) True msg unfolding dm by (auto simp: result_trace_def Let_def)
      then show ?thesis using lg c by (intro exI[of _ "p_log ?st @ [Console msg]"]) auto
    qed
  qed
qed


lemma sint_neg_unat: "sint (w :: word_t) < 0 \<Longrightarrow> 2147483648 \<le> unat w"
proof (rule ccontr)
  assume neg: "sint w < 0" and "\<not> 2147483648 \<le> unat w"
  then have "unat w < 2147483648" by simp
  then have "int (unat w) < 2147483648" by linarith
  then have u: "uint w < 2 ^ 31" by (simp only: uint_nat) simp
  have "- (2 ^ 31) \<le> uint w" by (rule order_trans[of _ 0]) simp_all
  from signed_take_bit_int_eq_self[OF this u] have "sint w = uint w"
    by (simp add: sint_uint)
  then show False using neg by simp
qed

section \<open>The loop over the modules: aborts and traces\<close>



lemma poll_fifo_first:
  assumes "thresh < unat (maxWords (map (CheckFIFOWords h 0) [0 ..< n_cards cfg]))"
  shows "poll_fifo cfg h thresh 0 = map (CheckFIFOWords h 0) [0 ..< n_cards cfg]"
  using assms by (subst poll_fifo.simps) (simp add: Let_def)





section \<open>Reading and writing the spill buffer\<close>

lemma store_in: "pos \<le> i \<Longrightarrow> i < pos + length ws \<Longrightarrow> store buf pos ws i = ws ! (i - pos)"
  by (simp add: store_def)

lemma store_out: "i < pos \<or> pos + length ws \<le> i \<Longrightarrow> store buf pos ws i = buf i"
  by (auto simp: store_def)

lemma nth_window: "i < n \<Longrightarrow> window buf pos n ! i = buf (pos + i)"
  by (simp add: window_def)

lemma window_eqI:
  assumes "length ws = n" and "\<And>i. i < n \<Longrightarrow> buf (pos + i) = ws ! i"
  shows "window buf pos n = ws"
  using assms by (intro nth_equalityI) (simp_all add: nth_window)

lemma window_cong:
  assumes "\<And>i. i < n \<Longrightarrow> buf (pos + i) = buf' (pos + i)"
  shows "window buf pos n = window buf' pos n"
  using assms by (intro window_eqI) (simp_all add: nth_window)

lemma spill_buffer_below:
  "i \<le> dataWords \<Longrightarrow> spill_buffer h m nWords s dataWords i = fifoData s i"
  by (simp add: spill_buffer_def store_def)

lemma spill_buffer_module: "spill_buffer h m nWords s dataWords (dataWords + 1) = of_nat m"
  by (simp add: spill_buffer_def store_def)

lemma spill_buffer_partial:
  assumes "i < length (partialEvents s ! m)"
  shows "spill_buffer h m nWords s dataWords (dataWords + 2 + i) = partialEvents s ! m ! i"
  using assms by (simp add: spill_buffer_def store_def)

lemma spill_buffer_hw:
  assumes "i < unat nWords"
  shows "spill_buffer h m nWords s dataWords (dataWords + 2 + length (partialEvents s ! m) + i)
           = fifo_words h m i"
  using assms by (simp add: spill_buffer_def store_def nth_window)

lemma window_spill_buffer:
  "window (spill_buffer h m nWords s dataWords) (dataWords + 2)
     (length (partialEvents s ! m) + unat nWords)
   = partialEvents s ! m @ window (fifo_words h m) 0 (unat nWords)"
proof (rule window_eqI)
  show "length (partialEvents s ! m @ window (fifo_words h m) 0 (unat nWords))
      = length (partialEvents s ! m) + unat nWords"
    by simp
next
  fix i assume i: "i < length (partialEvents s ! m) + unat nWords"
  show "spill_buffer h m nWords s dataWords (dataWords + 2 + i)
      = (partialEvents s ! m @ window (fifo_words h m) 0 (unat nWords)) ! i"
  proof (cases "i < length (partialEvents s ! m)")
    case True
    from spill_buffer_partial[OF True, where h=h and nWords=nWords and dataWords=dataWords] True
    show ?thesis by (simp add: nth_append)
  next
    case False
    then have j: "i - length (partialEvents s ! m) < unat nWords" using i by simp
    from spill_buffer_hw[OF j, where h=h and m=m and s=s and dataWords=dataWords] False j
    show ?thesis
      by (simp add: nth_append nth_window)
  qed
qed


lemma parse_loop_exit:
  assumes "\<not> parseWords st < stop"
  shows "parse_loop slotExpected m buf stop st = st"
  using assms by (subst parse_loop.simps) simp

lemma parse_loop_break:
  assumes "parseWords st < stop"
    and "p_had_error st \<or> event_errors slotExpected (buf (parseWords st)) \<noteq> []"
  shows "parse_loop slotExpected m buf stop st =
           st\<lparr>eventSize := eventSize_of (buf (parseWords st)),
              p_had_error := True,
              p_log := p_log st @
                map (Console \<circ> ParseError) (event_errors slotExpected (buf (parseWords st)))\<rparr>"
  using assms by (subst parse_loop.simps) simp

lemma parse_loop_step:
  assumes "parseWords st < stop"
    and "\<not> (p_had_error st \<or> event_errors slotExpected (buf (parseWords st)) \<noteq> [])"
  shows "parse_loop slotExpected m buf stop st =
           parse_loop slotExpected m buf stop
             (st\<lparr>eventSize := eventSize_of (buf (parseWords st)),
                 prevEventSize := eventSize_of (buf (parseWords st)),
                 parseWords := parseWords st + unat (eventSize_of (buf (parseWords st))),
                 p_log := p_log st @
                   (if \<not> virtualChannel (buf (parseWords st))
                    then [StatsAddEvent m (chanRead (buf (parseWords st)))
                            (4 * unat (eventSize_of (buf (parseWords st))))]
                    else [])\<rparr>)"
  using assms by (subst parse_loop.simps) simp

section \<open>Where the parsing loop stops\<close>

lemma eventSize_of_le: "unat (eventSize_of w) \<le> 16383"
proof -
  have "eventSize_of w = drop_bit 17 (w AND 0x7FFE2000)" by (simp add: eventSize_of_def)
  have "w AND 0x7FFE2000 \<le> 0x7FFE2000" by (rule word_and_le1)
  then have "unat (w AND 0x7FFE2000) \<le> 2147360768" by (simp add: word_le_nat_alt)
  then have "unat (w AND 0x7FFE2000) div 2 ^ 17 \<le> 2147360768 div 2 ^ 17"
    by (rule div_le_mono)
  then show ?thesis
    by (simp add: eventSize_of_def drop_bit_eq_div unat_div)
qed

lemma parse_loop_inv:
  assumes "base \<le> parseWords st"
    and "stop < parseWords st \<longrightarrow>
           unat (eventSize st) \<le> parseWords st - base \<and>
           parseWords st - unat (eventSize st) < stop \<and> unat (eventSize st) \<le> 16383 \<and>
           \<not> p_had_error st"
  shows "base \<le> parseWords (parse_loop slotExpected m buf stop st) \<and>
         (stop < parseWords (parse_loop slotExpected m buf stop st) \<longrightarrow>
            unat (eventSize (parse_loop slotExpected m buf stop st))
              \<le> parseWords (parse_loop slotExpected m buf stop st) - base \<and>
            parseWords (parse_loop slotExpected m buf stop st)
              - unat (eventSize (parse_loop slotExpected m buf stop st)) < stop \<and>
            unat (eventSize (parse_loop slotExpected m buf stop st)) \<le> 16383 \<and>
            \<not> p_had_error (parse_loop slotExpected m buf stop st))"
  using assms
proof (induction slotExpected m buf stop st rule: parse_loop.induct)
  case (1 slotExpected m buf stop st)
  show ?case
  proof (cases "parseWords st < stop")
    case False
    then show ?thesis using 1(2,3) by (simp add: parse_loop_exit)
  next
    case lt: True
    show ?thesis
    proof (cases "p_had_error st \<or> event_errors slotExpected (buf (parseWords st)) \<noteq> []")
      case True
      then show ?thesis using lt 1(2) by (simp add: parse_loop_break)
    next
      case False
      let ?e = "eventSize_of (buf (parseWords st))"
      let ?st' = "st\<lparr>eventSize := ?e, prevEventSize := ?e,
                 parseWords := parseWords st + unat ?e,
                 p_log := p_log st @
                   (if \<not> virtualChannel (buf (parseWords st))
                    then [StatsAddEvent m (chanRead (buf (parseWords st))) (4 * unat ?e)]
                    else [])\<rparr>"
      have a: "base \<le> parseWords ?st'" using 1(2) by simp
      have b: "stop < parseWords ?st' \<longrightarrow>
           unat (eventSize ?st') \<le> parseWords ?st' - base \<and>
           parseWords ?st' - unat (eventSize ?st') < stop \<and> unat (eventSize ?st') \<le> 16383 \<and>
           \<not> p_had_error ?st'"
        using 1(2) lt False eventSize_of_le[of "buf (parseWords st)"] by simp linarith
      from 1(1)[OF lt False a b] show ?thesis
        using lt False by (simp add: parse_loop_step)
    qed
  qed
qed

lemma parse_result_inv:
  assumes "spill_stop m nWords s dataWords < parseWords (parse_result cfg h m nWords s dataWords)"
  shows "unat (eventSize (parse_result cfg h m nWords s dataWords))
           \<le> parseWords (parse_result cfg h m nWords s dataWords) - (dataWords + 2)"
    and "parseWords (parse_result cfg h m nWords s dataWords)
           - unat (eventSize (parse_result cfg h m nWords s dataWords))
         < spill_stop m nWords s dataWords"
    and "unat (eventSize (parse_result cfg h m nWords s dataWords)) \<le> 16383"
    and "dataWords + 2 \<le> parseWords (parse_result cfg h m nWords s dataWords)"
proof -
  let ?st0 = "\<lparr>parseWords = dataWords + 2, eventSize = 0, prevEventSize = 0,
        p_had_error = had_error s, p_log = []\<rparr>"
  have a: "dataWords + 2 \<le> parseWords ?st0" by simp
  have b: "spill_stop m nWords s dataWords < parseWords ?st0 \<longrightarrow>
           unat (eventSize ?st0) \<le> parseWords ?st0 - (dataWords + 2) \<and>
           parseWords ?st0 - unat (eventSize ?st0) < spill_stop m nWords s dataWords \<and>
           unat (eventSize ?st0) \<le> 16383 \<and> \<not> p_had_error ?st0"
    by (simp add: spill_stop_def)
  note i = parse_loop_inv[where base="dataWords + 2" and st="?st0"
      and stop="spill_stop m nWords s dataWords" and slotExpected="GetSlotNumber cfg m"
      and m=m and buf="spill_buffer h m nWords s dataWords", OF a b,
      folded parse_result_def]
  from i assms
  show "unat (eventSize (parse_result cfg h m nWords s dataWords))
           \<le> parseWords (parse_result cfg h m nWords s dataWords) - (dataWords + 2)"
    and "parseWords (parse_result cfg h m nWords s dataWords)
           - unat (eventSize (parse_result cfg h m nWords s dataWords))
         < spill_stop m nWords s dataWords"
    and "unat (eventSize (parse_result cfg h m nWords s dataWords)) \<le> 16383"
    and "dataWords + 2 \<le> parseWords (parse_result cfg h m nWords s dataWords)"
    by blast+
qed


section \<open>Whole events and partial events\<close>

lemma whole_events_Nil [simp]: "whole_events []"
  by (subst whole_events.simps) simp

lemma whole_events_hd:
  assumes "whole_events ws" and "ws \<noteq> []"
  shows "0 < unat (eventSize_of (hd ws))" and "unat (eventSize_of (hd ws)) \<le> length ws"
    and "whole_events (drop (unat (eventSize_of (hd ws))) ws)"
proof -
  have a: "\<not> (eventSize_of (hd ws) = 0 \<or> length ws < unat (eventSize_of (hd ws)))"
    and b: "whole_events (drop (unat (eventSize_of (hd ws))) ws)"
    using assms by (subst (asm) whole_events.simps, simp split: if_splits)+
  from a show "0 < unat (eventSize_of (hd ws))" by (simp add: unat_gt_0)
  from a show "unat (eventSize_of (hd ws)) \<le> length ws" by simp
  from b show "whole_events (drop (unat (eventSize_of (hd ws))) ws)" .
qed

lemma whole_events_single:
  assumes "ws \<noteq> []" and "unat (eventSize_of (hd ws)) = length ws"
  shows "whole_events ws"
proof -
  have "eventSize_of (hd ws) \<noteq> 0" using assms by (auto simp: unat_eq_0)
  then show ?thesis using assms by (subst whole_events.simps) simp
qed

lemma whole_events_append:
  assumes "whole_events xs" and "whole_events ys"
  shows "whole_events (xs @ ys)"
  using assms
proof (induction xs rule: whole_events.induct)
  case (1 ws)
  show ?case
  proof (cases "ws = []")
    case True
    then show ?thesis using 1(3) by simp
  next
    case False
    note h = whole_events_hd[OF 1(2) False]
    have c: "\<not> (eventSize_of (hd ws) = 0 \<or> length ws < unat (eventSize_of (hd ws)))"
      using h(1,2) by (auto simp: unat_eq_0)
    have "whole_events (drop (unat (eventSize_of (hd ws))) ws @ ys)"
      by (rule 1(1)[OF False c h(3) 1(3)])
    then have r: "whole_events (drop (unat (eventSize_of (hd ws))) (ws @ ys))"
      using h(2) by simp
    have hd: "hd (ws @ ys) = hd ws" using False by simp
    have ne: "ws @ ys \<noteq> []" using False by simp
    have c': "\<not> (eventSize_of (hd (ws @ ys)) = 0
        \<or> length (ws @ ys) < unat (eventSize_of (hd (ws @ ys))))"
      unfolding hd using c by auto
    show ?thesis
      by (subst whole_events.simps) (use ne c' r in \<open>simp add: hd\<close>)
  qed
qed

lemma partial_event_le:
  assumes "partial_event p"
  shows "length p \<le> 16382"
proof (cases "p = []")
  case True
  then show ?thesis by simp
next
  case False
  then have "length p < unat (eventSize_of (hd p))" using assms by (simp add: partial_event_def)
  then show ?thesis using eventSize_of_le[of "hd p"] by linarith
qed

lemma hd_window: "0 < n \<Longrightarrow> hd (window buf pos n) = buf pos"
  by (simp add: window_def upt_rec)

lemma parse_loop_events:
  assumes "base \<le> parseWords st"
    and "parseWords st \<le> stop \<longrightarrow> whole_events (window buf base (parseWords st - base))"
    and "stop < parseWords st \<longrightarrow>
           whole_events (window buf base (parseWords st - unat (eventSize st) - base)) \<and>
           eventSize st = eventSize_of (buf (parseWords st - unat (eventSize st))) \<and>
           base + unat (eventSize st) \<le> parseWords st"
  shows "(parseWords (parse_loop slotExpected m buf stop st) \<le> stop \<longrightarrow>
            whole_events (window buf base
              (parseWords (parse_loop slotExpected m buf stop st) - base))) \<and>
         (stop < parseWords (parse_loop slotExpected m buf stop st) \<longrightarrow>
            whole_events (window buf base
              (parseWords (parse_loop slotExpected m buf stop st)
                 - unat (eventSize (parse_loop slotExpected m buf stop st)) - base)) \<and>
            eventSize (parse_loop slotExpected m buf stop st)
              = eventSize_of (buf (parseWords (parse_loop slotExpected m buf stop st)
                  - unat (eventSize (parse_loop slotExpected m buf stop st)))) \<and>
            base + unat (eventSize (parse_loop slotExpected m buf stop st))
              \<le> parseWords (parse_loop slotExpected m buf stop st))"
  using assms
proof (induction slotExpected m buf stop st rule: parse_loop.induct)
  case (1 slotExpected m buf stop st)
  show ?case
  proof (cases "parseWords st < stop")
    case False
    then show ?thesis using 1(3,4) by (simp add: parse_loop_exit)
  next
    case lt: True
    show ?thesis
    proof (cases "p_had_error st \<or> event_errors slotExpected (buf (parseWords st)) \<noteq> []")
      case True
      then show ?thesis using lt 1(3) by (simp add: parse_loop_break)
    next
      case False
      let ?pw = "parseWords st"
      let ?e = "eventSize_of (buf ?pw)"
      let ?st' = "st\<lparr>eventSize := ?e, prevEventSize := ?e,
                 parseWords := ?pw + unat ?e,
                 p_log := p_log st @
                   (if \<not> virtualChannel (buf ?pw)
                    then [StatsAddEvent m (chanRead (buf ?pw)) (4 * unat ?e)]
                    else [])\<rparr>"
      have e0: "?e \<noteq> 0" using False by (auto simp: event_errors_def split: if_splits)
      then have epos: "0 < unat ?e" by (simp add: unat_gt_0)
      have pre: "whole_events (window buf base (?pw - base))" using 1(3) lt by simp
      have ev: "whole_events (window buf ?pw (unat ?e))"
        by (rule whole_events_single) (use epos in \<open>simp_all add: hd_window\<close>, use epos in \<open>auto simp: window_def\<close>)
      have a: "base \<le> parseWords ?st'" using 1(2) by simp
      have b: "parseWords ?st' \<le> stop \<longrightarrow> whole_events (window buf base (parseWords ?st' - base))"
      proof
        have "window buf base (?pw - base) @ window buf (base + (?pw - base)) (unat ?e)
            = window buf base (?pw - base + unat ?e)"
          by (rule window_append)
        moreover have "base + (?pw - base) = ?pw" using 1(2) by simp
        moreover have "?pw - base + unat ?e = ?pw + unat ?e - base" using 1(2) by simp
        ultimately have "window buf base (?pw + unat ?e - base)
            = window buf base (?pw - base) @ window buf ?pw (unat ?e)"
          by simp
        then show "whole_events (window buf base (parseWords ?st' - base))"
          using whole_events_append[OF pre ev] by simp
      qed
      have c: "stop < parseWords ?st' \<longrightarrow>
           whole_events (window buf base (parseWords ?st' - unat (eventSize ?st') - base)) \<and>
           eventSize ?st' = eventSize_of (buf (parseWords ?st' - unat (eventSize ?st'))) \<and>
           base + unat (eventSize ?st') \<le> parseWords ?st'"
        using pre 1(2) by simp
      from 1(1)[OF lt False a b c] show ?thesis
        using lt False by (simp add: parse_loop_step)
    qed
  qed
qed

lemma parse_result_events:
  "(parseWords (parse_result cfg h m nWords s dataWords) \<le> spill_stop m nWords s dataWords \<longrightarrow>
      whole_events (window (spill_buffer h m nWords s dataWords) (dataWords + 2)
        (parseWords (parse_result cfg h m nWords s dataWords) - (dataWords + 2)))) \<and>
   (spill_stop m nWords s dataWords < parseWords (parse_result cfg h m nWords s dataWords) \<longrightarrow>
      whole_events (window (spill_buffer h m nWords s dataWords) (dataWords + 2)
        (parseWords (parse_result cfg h m nWords s dataWords)
           - unat (eventSize (parse_result cfg h m nWords s dataWords)) - (dataWords + 2))) \<and>
      eventSize (parse_result cfg h m nWords s dataWords)
        = eventSize_of (spill_buffer h m nWords s dataWords
            (parseWords (parse_result cfg h m nWords s dataWords)
               - unat (eventSize (parse_result cfg h m nWords s dataWords)))))"
proof -
  let ?st0 = "\<lparr>parseWords = dataWords + 2, eventSize = 0, prevEventSize = 0,
        p_had_error = had_error s, p_log = []\<rparr>"
  have a: "dataWords + 2 \<le> parseWords ?st0" by simp
  have b: "parseWords ?st0 \<le> spill_stop m nWords s dataWords \<longrightarrow>
      whole_events (window (spill_buffer h m nWords s dataWords) (dataWords + 2)
        (parseWords ?st0 - (dataWords + 2)))"
    by (simp add: window_def)
  have c: "spill_stop m nWords s dataWords < parseWords ?st0 \<longrightarrow>
           whole_events (window (spill_buffer h m nWords s dataWords) (dataWords + 2)
             (parseWords ?st0 - unat (eventSize ?st0) - (dataWords + 2))) \<and>
           eventSize ?st0 = eventSize_of (spill_buffer h m nWords s dataWords
             (parseWords ?st0 - unat (eventSize ?st0))) \<and>
           dataWords + 2 + unat (eventSize ?st0) \<le> parseWords ?st0"
    by (simp add: spill_stop_def)
  note i = parse_loop_events[where base="dataWords + 2" and st="?st0"
      and stop="spill_stop m nWords s dataWords" and slotExpected="GetSlotNumber cfg m"
      and m=m and buf="spill_buffer h m nWords s dataWords", OF a b c,
      folded parse_result_def]
  from i show ?thesis by blast
qed
section \<open>One module of a drain cycle: what a completed step leaves behind\<close>

lemma window_alt: "window buf pos n = map (\<lambda>i. buf (pos + i)) [0 ..< n]"
  by (intro nth_equalityI) (simp_all add: nth_window)

lemma unat_of_nat_small:
  assumes "k < 4294967296"
  shows "unat (of_nat k :: word_t) = k"
  using assms by (simp add: unat_of_nat)

lemma unat_add_small:
  fixes a :: word_t
  assumes "unat a + k < 4294967296"
  shows "unat (a + of_nat k) = unat a + k"
proof -
  have "unat (of_nat k :: word_t) = k" using assms by (simp add: unat_of_nat)
  then show ?thesis using assms by (simp add: unat_word_ariths)
qed

lemma unat_sub_of_nat:
  fixes a :: word_t
  assumes "k \<le> unat a"
  shows "unat (a - of_nat k) = unat a - k"
proof -
  have "unat a < 2 ^ LENGTH(32)" by (rule unsigned_less)
  then have k: "unat (of_nat k :: word_t) = k" using assms by (simp add: unat_of_nat)
  then have "(of_nat k :: word_t) \<le> a" using assms by (simp add: word_le_nat_alt)
  then show ?thesis using k by (simp add: unat_sub)
qed

lemma word_of_unat_plus:
  fixes a :: word_t
  shows "a + 2 = of_nat (unat a + 2)"
  by simp

lemma drain_module_read_Completed:
  assumes r: "MIN_FIFO_READ cfg \<le> unat nWords" "unat nWords < EXTERNAL_FIFO_LENGTH cfg"
      "ReadFIFOWords_ok h m"
    and nowrap: "length (partialEvents s ! m) + unat nWords < 4294967294"
    and c: "drain_module cfg h m nWords s dataWords = Completed s' dataWords'"
  shows "dataWords + 2 \<le> dataWords'"
    and "dataWords' \<le> dataWords + 2 + (length (partialEvents s ! m) + unat nWords)"
    and "fifoData s' =
           store (spill_buffer h m nWords s dataWords) dataWords [of_nat (dataWords' - dataWords)]"
    and "partialEvents s' =
           (partialEvents s)[m := window (spill_buffer h m nWords s dataWords) dataWords'
              (dataWords + 2 + (length (partialEvents s ! m) + unat nWords) - dataWords')]"
    and "dataWords + 2 + (length (partialEvents s ! m) + unat nWords) - dataWords' \<le> 16382"
    and "whole_events (window (spill_buffer h m nWords s dataWords) (dataWords + 2)
           (dataWords' - dataWords - 2))"
    and "partial_event (window (spill_buffer h m nWords s dataWords) dataWords'
           (dataWords + 2 + (length (partialEvents s ! m) + unat nWords) - dataWords'))"
    and "dataWords + 2 + (length (partialEvents s ! m) + unat nWords) \<le> capacity cfg"
proof -
  let ?L = "length (partialEvents s ! m) + unat nWords"
  let ?buf = "spill_buffer h m nWords s dataWords"
  let ?st = "parse_result cfg h m nWords s dataWords"
  let ?n1 = "nWords + of_nat (length (partialEvents s ! m))"
  let ?pw = "parseWords ?st"
  let ?es = "unat (eventSize ?st)"
  have n1: "unat ?n1 = ?L" using unat_add_small[of nWords "length (partialEvents s ! m)"] nowrap
    by simp
  have stop: "spill_stop m nWords s dataWords = dataWords + 2 + ?L"
    by (simp add: spill_stop_def n1)
  have "drain_module cfg h m nWords s dataWords \<noteq> Undefined_Behaviour"
    using c by simp
  note fits = drain_module_fits(3)[OF this r]
  note dm = drain_module_read[OF r fits]
  have nlt: "\<not> ?pw < dataWords + 2 + ?L"
    using c unfolding dm Let_def stop by (auto split: if_splits option.splits)
  note pe = parse_result_events[of cfg h m nWords s dataWords, unfolded stop]
  have goal: "dataWords + 2 \<le> dataWords' \<and> dataWords' \<le> dataWords + 2 + ?L \<and>
      fifoData s' = store ?buf dataWords [of_nat (dataWords' - dataWords)] \<and>
      partialEvents s' = (partialEvents s)[m := window ?buf dataWords' (dataWords + 2 + ?L - dataWords')] \<and>
      dataWords + 2 + ?L - dataWords' \<le> 16382 \<and>
      whole_events (window ?buf (dataWords + 2) (dataWords' - dataWords - 2)) \<and>
      partial_event (window ?buf dataWords' (dataWords + 2 + ?L - dataWords'))"
  proof (cases "dataWords + 2 + ?L < ?pw")
    case False
    then have eq: "?pw = dataWords + 2 + ?L" using nlt by simp
    have d: "dataWords' = dataWords + 2 + ?L"
      and f: "fifoData s' = store ?buf dataWords [?n1 + 2]"
      and p: "partialEvents s' = (partialEvents s)[m := []]"
      using c eq unfolding dm Let_def stop n1 by (auto simp: emit_def)
    have hd: "?n1 + 2 = of_nat (dataWords' - dataWords)"
      using word_of_unat_plus[of ?n1] unfolding n1 d by simp
    have w0: "window ?buf dataWords' (dataWords + 2 + ?L - dataWords') = []"
      unfolding d by (simp add: window_def)
    have le: "dataWords + 2 \<le> dataWords'" "dataWords' \<le> dataWords + 2 + ?L"
      "dataWords + 2 + ?L - dataWords' \<le> 16382"
      unfolding d by simp_all
    have "whole_events (window ?buf (dataWords + 2) (?pw - (dataWords + 2)))"
      using pe eq by simp
    moreover have "?pw - (dataWords + 2) = dataWords' - dataWords - 2"
      unfolding eq d by simp
    ultimately have we: "whole_events (window ?buf (dataWords + 2) (dataWords' - dataWords - 2))"
      by simp
    have pa: "partial_event (window ?buf dataWords' (dataWords + 2 + ?L - dataWords'))"
      unfolding w0 by (simp add: partial_event_def)
    show ?thesis using le f[unfolded hd] p[folded w0] we pa by (intro conjI)
  next
    case over: True
    then have over': "spill_stop m nWords s dataWords < ?pw" by (simp add: stop)
    note inv = parse_result_inv[OF over', unfolded stop]
    let ?k = "?pw - (dataWords + 2 + ?L)"
    let ?cut = "?pw - ?es"
    have k1: "0 < ?k" using over by linarith
    have k2: "?k < ?es" using over inv(2) by linarith
    note k = k1 k2
    have kk: "?pw - (dataWords + 2) - unat ?n1 = ?k" unfolding n1 by simp
    let ?ps = "eventSize ?st - of_nat ?k"
    have ps: "unat ?ps = dataWords + 2 + ?L - ?cut"
      using unat_sub_of_nat[of ?k "eventSize ?st"] k over inv(1,2) by simp
    have cut1: "dataWords + 2 \<le> ?cut" using inv(1,4) by linarith
    have cut2: "?cut < dataWords + 2 + ?L" using inv(2) by linarith
    note cut = cut1 cut2
    have psle: "unat ?ps \<le> unat ?n1" unfolding ps n1 using cut by linarith
    have "?ps \<le> ?n1" using psle by (simp only: word_le_nat_alt)
    then have "unat (?n1 - ?ps) = unat ?n1 - unat ?ps" by (rule unat_sub)
    also have "\<dots> = ?cut - (dataWords + 2)" unfolding ps n1 using cut by linarith
    finally have n2: "unat (?n1 - ?ps) = ?cut - (dataWords + 2)" .
    have d: "dataWords' = dataWords + 2 + unat (?n1 - ?ps)"
      and f: "fifoData s' = store ?buf dataWords [?n1 - ?ps + 2]"
      and p: "partialEvents s' = (partialEvents s)[m :=
          map (\<lambda>i. ?buf (?pw - ?es + i)) [0 ..< unat ?ps]]"
      using c over unfolding dm Let_def stop kk by (auto simp: emit_def)
    have d': "dataWords' = ?cut" unfolding d n2 using cut by simp
    have hd: "?n1 - ?ps + 2 = of_nat (dataWords' - dataWords)"
      using word_of_unat_plus[of "?n1 - ?ps"] cut unfolding n2 d' by simp
    have fr: "map (\<lambda>i. ?buf (?pw - ?es + i)) [0 ..< unat ?ps]
        = window ?buf dataWords' (dataWords + 2 + ?L - dataWords')"
      unfolding ps d' by (simp add: window_alt)
    have len: "dataWords + 2 + ?L - dataWords' \<le> 16382"
      unfolding d' using k inv(3) over by linarith
    have le: "dataWords + 2 \<le> dataWords'" "dataWords' \<le> dataWords + 2 + ?L"
      unfolding d' using cut by simp_all
    have pe2: "whole_events (window ?buf (dataWords + 2) (?cut - (dataWords + 2)))"
      "eventSize ?st = eventSize_of (?buf ?cut)"
      using pe over by simp_all
    have "?cut - (dataWords + 2) = dataWords' - dataWords - 2" unfolding d' by simp
    then have we: "whole_events (window ?buf (dataWords + 2) (dataWords' - dataWords - 2))"
      using pe2(1) by simp
    have pos: "0 < dataWords + 2 + ?L - ?cut" using cut by linarith
    have hdw: "hd (window ?buf ?cut (dataWords + 2 + ?L - ?cut)) = ?buf ?cut"
      by (rule hd_window[OF pos])
    have "length (window ?buf ?cut (dataWords + 2 + ?L - ?cut))
        < unat (eventSize_of (hd (window ?buf ?cut (dataWords + 2 + ?L - ?cut))))"
      unfolding hdw pe2(2)[symmetric] using k over by simp
    then have pa: "partial_event (window ?buf dataWords' (dataWords + 2 + ?L - dataWords'))"
      unfolding d' by (simp add: partial_event_def)
    show ?thesis using le f[unfolded hd] p[unfolded fr] len we pa by (intro conjI)
  qed
  from goal show "dataWords + 2 \<le> dataWords'"
    and "dataWords' \<le> dataWords + 2 + ?L"
    and "fifoData s' = store ?buf dataWords [of_nat (dataWords' - dataWords)]"
    and "partialEvents s' = (partialEvents s)[m := window ?buf dataWords' (dataWords + 2 + ?L - dataWords')]"
    and "dataWords + 2 + ?L - dataWords' \<le> 16382"
    and "whole_events (window ?buf (dataWords + 2) (dataWords' - dataWords - 2))"
    and "partial_event (window ?buf dataWords' (dataWords + 2 + ?L - dataWords'))"
    by blast+
  from fits show "dataWords + 2 + ?L \<le> capacity cfg" by simp
qed

lemma drain_module_Completed:
  assumes c: "drain_module cfg h m nWords s dataWords = Completed s' dataWords'"
    and m: "m < length (partialEvents s)"
    and pl: "partial_event (partialEvents s ! m)"
    and cfg: "EXTERNAL_FIFO_LENGTH cfg + 16384 \<le> 4294967296"
  shows "2 \<le> unat (fifoData s' dataWords)"
    and "dataWords' = dataWords + unat (fifoData s' dataWords)"
    and "fifoData s' (dataWords + 1) = of_nat m"
    and "\<forall>i < dataWords. fifoData s' i = fifoData s i"
    and "payload (fifoData s') dataWords @ partialEvents s' ! m
           = partialEvents s ! m @ consumed cfg h m nWords"
    and "length (partialEvents s') = length (partialEvents s)"
    and "\<forall>k. k \<noteq> m \<longrightarrow> partialEvents s' ! k = partialEvents s ! k"
    and "partial_event (partialEvents s' ! m)"
    and "unat nWords < MIN_FIFO_READ cfg \<longrightarrow>
           fifoData s' dataWords = 2 \<and> partialEvents s' = partialEvents s"
    and "whole_events (payload (fifoData s') dataWords)"
    and "dataWords' \<le> capacity cfg"
proof -
  have goal: "2 \<le> unat (fifoData s' dataWords) \<and>
      dataWords' = dataWords + unat (fifoData s' dataWords) \<and>
      fifoData s' (dataWords + 1) = of_nat m \<and>
      (\<forall>i < dataWords. fifoData s' i = fifoData s i) \<and>
      payload (fifoData s') dataWords @ partialEvents s' ! m
        = partialEvents s ! m @ consumed cfg h m nWords \<and>
      length (partialEvents s') = length (partialEvents s) \<and>
      (\<forall>k. k \<noteq> m \<longrightarrow> partialEvents s' ! k = partialEvents s ! k) \<and>
      partial_event (partialEvents s' ! m) \<and>
      (unat nWords < MIN_FIFO_READ cfg \<longrightarrow>
         fifoData s' dataWords = 2 \<and> partialEvents s' = partialEvents s) \<and>
      whole_events (payload (fifoData s') dataWords) \<and>
      dataWords' \<le> capacity cfg"
  proof -
    have "drain_module cfg h m nWords s dataWords \<noteq> Undefined_Behaviour"
      using c by simp
    note fits = drain_module_fits[OF this]
    note pl' = partial_event_le[OF pl]
    consider (empty) "unat nWords < MIN_FIFO_READ cfg"
      | (full) "MIN_FIFO_READ cfg \<le> unat nWords" "EXTERNAL_FIFO_LENGTH cfg \<le> unat nWords"
      | (failed) "MIN_FIFO_READ cfg \<le> unat nWords" "unat nWords < EXTERNAL_FIFO_LENGTH cfg"
          "\<not> ReadFIFOWords_ok h m"
      | (read) "MIN_FIFO_READ cfg \<le> unat nWords" "unat nWords < EXTERNAL_FIFO_LENGTH cfg"
          "ReadFIFOWords_ok h m"
      by linarith
    then show ?thesis
    proof cases
      case empty
      from drain_module_empty[OF empty fits(1)[OF empty], where h=h and m=m and s=s] c
      have s': "s' = s\<lparr>fifoData := store (fifoData s) dataWords [2, of_nat m]\<rparr>"
        and d: "dataWords' = dataWords + 2"
        by simp_all
      have h0: "fifoData s' dataWords = 2" and h1: "fifoData s' (dataWords + 1) = of_nat m"
        unfolding s' by (simp_all add: store_def)
      have bl: "\<forall>i < dataWords. fifoData s' i = fifoData s i"
        unfolding s' by (simp add: store_def)
      have pe: "partialEvents s' = partialEvents s" unfolding s' by simp
      have py: "payload (fifoData s') dataWords = []"
        unfolding payload_def h0 by (simp add: window_def)
      show ?thesis using empty h0 h1 bl pe py d pl fits(1)[OF empty] by (simp add: consumed_def)
    next
      case full
      from drain_module_full[OF full, where h=h and m=m and s=s and dataWords=dataWords] c
      show ?thesis by simp
    next
      case failed
      from drain_module_read_failed[OF failed fits(2)[OF failed(1,2)]] c
      show ?thesis by simp
    next
      case read
      let ?L = "length (partialEvents s ! m) + unat nWords"
      let ?buf = "spill_buffer h m nWords s dataWords"
      have nowrap: "?L < 4294967294" using pl' cfg read(2) by linarith
      note rc = drain_module_read_Completed[OF read nowrap c]
      have hd: "fifoData s' dataWords = of_nat (dataWords' - dataWords)"
        unfolding rc(3) by (simp add: store_def)
      have "dataWords' - dataWords < 4294967296" using rc(2) nowrap by linarith
      then have uh: "unat (fifoData s' dataWords) = dataWords' - dataWords"
        unfolding hd by (rule unat_of_nat_small)
      have h1: "fifoData s' (dataWords + 1) = of_nat m"
        unfolding rc(3)
        using spill_buffer_module[where h=h and m=m and nWords=nWords and s=s
            and dataWords=dataWords]
        by (simp add: store_def)
      have bl: "\<forall>i < dataWords. fifoData s' i = fifoData s i"
        unfolding rc(3) by (simp add: store_def spill_buffer_below)
      have len: "length (partialEvents s') = length (partialEvents s)"
        unfolding rc(4) by simp
      have oth: "\<forall>k. k \<noteq> m \<longrightarrow> partialEvents s' ! k = partialEvents s ! k"
        unfolding rc(4) by simp
      have pm: "partialEvents s' ! m = window ?buf dataWords' (dataWords + 2 + ?L - dataWords')"
        unfolding rc(4) using m by simp
      have "payload (fifoData s') dataWords
          = window (fifoData s') (dataWords + 2) (dataWords' - dataWords - 2)"
        unfolding payload_def uh by simp
      also have "\<dots> = window ?buf (dataWords + 2) (dataWords' - dataWords - 2)"
        unfolding rc(3) by (rule window_cong) (simp add: store_def)
      finally have py: "payload (fifoData s') dataWords
          = window ?buf (dataWords + 2) (dataWords' - dataWords - 2)" .
      have e1: "dataWords + 2 + (dataWords' - dataWords - 2) = dataWords'"
        using rc(1) by linarith
      have e2: "dataWords' - dataWords - 2 + (dataWords + 2 + ?L - dataWords') = ?L"
        using rc(1,2) by linarith
      have "payload (fifoData s') dataWords @ partialEvents s' ! m
          = window ?buf (dataWords + 2) (dataWords' - dataWords - 2)
            @ window ?buf (dataWords + 2 + (dataWords' - dataWords - 2))
                (dataWords + 2 + ?L - dataWords')"
        unfolding py pm e1 ..
      also have "\<dots> = window ?buf (dataWords + 2) ?L"
        unfolding window_append e2 ..
      also have "\<dots> = partialEvents s ! m @ window (fifo_words h m) 0 (unat nWords)"
        by (rule window_spill_buffer)
      finally have cat: "payload (fifoData s') dataWords @ partialEvents s' ! m
          = partialEvents s ! m @ consumed cfg h m nWords"
        using read(1) by (simp add: consumed_def)
      have plen: "partial_event (partialEvents s' ! m)"
        unfolding pm by (rule rc(7))
      have we: "whole_events (payload (fifoData s') dataWords)"
        unfolding py by (rule rc(6))
      have cap: "dataWords' \<le> capacity cfg" using rc(2,8) by linarith
      have two: "2 \<le> unat (fifoData s' dataWords)" unfolding uh using rc(1) by linarith
      have dd: "dataWords' = dataWords + unat (fifoData s' dataWords)"
        unfolding uh using rc(1) by linarith
      have ne: "\<not> unat nWords < MIN_FIFO_READ cfg" using read(1) by simp
      show ?thesis using two dd h1 bl cat len oth plen ne we cap by (intro conjI) simp_all
    qed
  qed
  from goal show "2 \<le> unat (fifoData s' dataWords)"
    and "dataWords' = dataWords + unat (fifoData s' dataWords)"
    and "fifoData s' (dataWords + 1) = of_nat m"
    and "\<forall>i < dataWords. fifoData s' i = fifoData s i"
    and "payload (fifoData s') dataWords @ partialEvents s' ! m
           = partialEvents s ! m @ consumed cfg h m nWords"
    and "length (partialEvents s') = length (partialEvents s)"
    and "\<forall>k. k \<noteq> m \<longrightarrow> partialEvents s' ! k = partialEvents s ! k"
    and "partial_event (partialEvents s' ! m)"
    and "unat nWords < MIN_FIFO_READ cfg \<longrightarrow>
           fifoData s' dataWords = 2 \<and> partialEvents s' = partialEvents s"
    and "whole_events (payload (fifoData s') dataWords)"
    and "dataWords' \<le> capacity cfg"
    by blast+
qed

section \<open>A completed drain cycle: the layout of the spill and the partial events\<close>

lemma payload_cong:
  assumes "\<forall>i < p + unat (buf p). buf' i = buf i" and "2 \<le> unat (buf p)"
  shows "payload buf' p = payload buf p"
proof -
  have h: "buf' p = buf p" using assms by simp
  have "window buf' (p + 2) (unat (buf p) - 2) = window buf (p + 2) (unat (buf p) - 2)"
    by (rule window_cong) (use assms in simp)
  then show ?thesis by (simp add: payload_def h)
qed

lemma drain_modules_Completed:
  assumes "drain_modules cfg h nWords ms s dataWords = Completed s' dataWords'"
    and "distinct ms" and "\<forall>m \<in> set ms. m < length (partialEvents s)"
    and "list_all partial_event (partialEvents s)"
    and cfg: "EXTERNAL_FIFO_LENGTH cfg + 16384 \<le> 4294967296"
  shows "(\<forall>i < dataWords. fifoData s' i = fifoData s i) \<and>
         sect_pos (fifoData s') dataWords (length ms) = dataWords' \<and>
         dataWords \<le> dataWords' \<and>
         length (partialEvents s') = length (partialEvents s) \<and>
         list_all partial_event (partialEvents s') \<and>
         (\<forall>k. k \<notin> set ms \<longrightarrow> partialEvents s' ! k = partialEvents s ! k) \<and>
         (\<forall>j < length ms.
            section_ok cfg h nWords s s' (sect_pos (fifoData s') dataWords j) (ms ! j)) \<and>
         (dataWords \<le> capacity cfg \<longrightarrow> dataWords' \<le> capacity cfg)"
  using assms(1-4)
proof (induction ms arbitrary: s dataWords)
  case Nil
  then show ?case by simp
next
  case (Cons m ms)
  from Cons(2) obtain s1 d1 where
    st: "drain_module cfg h m (nWords ! m) s dataWords = Completed s1 d1"
    and rest: "drain_modules cfg h nWords ms s1 d1 = Completed s' dataWords'"
    by (auto split: drain_result.splits)
  have m: "m < length (partialEvents s)" using Cons(4) by simp
  have plm: "partial_event (partialEvents s ! m)"
    using Cons(5) m by (simp add: list_all_length)
  note A = drain_module_Completed[OF st m plm cfg]
  have len1: "length (partialEvents s1) = length (partialEvents s)" by (rule A(6))
  have pl1: "list_all partial_event (partialEvents s1)"
    unfolding list_all_length
  proof (intro allI impI)
    fix k assume "k < length (partialEvents s1)"
    then have k: "k < length (partialEvents s)" using len1 by simp
    show "partial_event (partialEvents s1 ! k)"
    proof (cases "k = m")
      case True
      then show ?thesis using A(8) by simp
    next
      case False
      then have "partialEvents s1 ! k = partialEvents s ! k" using A(7) by simp
      then show ?thesis using Cons(5) k by (simp add: list_all_length)
    qed
  qed
  have dis: "distinct ms" and mnot: "m \<notin> set ms" using Cons(3) by simp_all
  have sub1: "\<forall>m' \<in> set ms. m' < length (partialEvents s1)" using Cons(4) len1 by simp
  note B = Cons(1)[OF rest dis sub1 pl1]
  let ?b = "fifoData s'"
  have d1: "d1 = dataWords + unat (fifoData s1 dataWords)" by (rule A(2))
  have two: "2 \<le> unat (fifoData s1 dataWords)" by (rule A(1))
  have pre1: "\<forall>i < d1. ?b i = fifoData s1 i" using B by blast
  have h0: "?b dataWords = fifoData s1 dataWords" using pre1 d1 two by simp
  have h1: "?b (dataWords + 1) = of_nat m" using pre1 d1 two A(3) by simp
  have sp: "\<And>k. sect_pos ?b dataWords (Suc k) = sect_pos ?b d1 k"
    by (simp add: h0 d1)
  have pm: "partialEvents s' ! m = partialEvents s1 ! m" using B mnot by blast
  have py: "payload ?b dataWords = payload (fifoData s1) dataWords"
    by (rule payload_cong) (use pre1 d1 two in simp_all)
  have s0: "section_ok cfg h nWords s s' dataWords m"
    unfolding section_ok_def h0 h1 py pm
    using two A(5) A(9) A(10) A(8) by simp
  have sj: "\<forall>j < length (m # ms).
      section_ok cfg h nWords s s' (sect_pos ?b dataWords j) ((m # ms) ! j)"
  proof (intro allI impI)
    fix j assume j: "j < length (m # ms)"
    show "section_ok cfg h nWords s s' (sect_pos ?b dataWords j) ((m # ms) ! j)"
    proof (cases j)
      case 0
      then show ?thesis using s0 by simp
    next
      case (Suc j')
      then have j': "j' < length ms" using j by simp
      then have ne: "ms ! j' \<noteq> m" using mnot by (metis nth_mem)
      then have same: "partialEvents s1 ! (ms ! j') = partialEvents s ! (ms ! j')"
        using A(7) by simp
      have "section_ok cfg h nWords s1 s' (sect_pos ?b d1 j') (ms ! j')"
        using B j' by blast
      then have "section_ok cfg h nWords s s' (sect_pos ?b d1 j') (ms ! j')"
        by (simp add: section_ok_def same)
      then show ?thesis unfolding Suc sp by simp
    qed
  qed
  have pre: "\<forall>i < dataWords. ?b i = fifoData s i"
    using pre1 d1 A(4) by simp
  have end_pos: "sect_pos ?b dataWords (length (m # ms)) = dataWords'"
    using B sp by simp
  have mono: "dataWords \<le> dataWords'" using B d1 by linarith
  have len: "length (partialEvents s') = length (partialEvents s)" using B len1 by simp
  have pl': "list_all partial_event (partialEvents s')" using B by blast
  have oth: "\<forall>k. k \<notin> set (m # ms) \<longrightarrow> partialEvents s' ! k = partialEvents s ! k"
    using B A(7) by simp
  have cap: "dataWords \<le> capacity cfg \<longrightarrow> dataWords' \<le> capacity cfg"
    using B A(11) by blast
  show ?case using pre end_pos mono len pl' oth sj cap by (intro conjI)
qed

lemma sect_pos_sum:
  "sect_pos buf pos k = pos + (\<Sum>j < k. unat (buf (sect_pos buf pos j)))"
proof (induction k arbitrary: pos)
  case 0
  then show ?case by simp
next
  case (Suc k)
  have "sect_pos buf pos (Suc k) = sect_pos buf (pos + unat (buf pos)) k" by simp
  also have "\<dots> = pos + unat (buf pos)
      + (\<Sum>j < k. unat (buf (sect_pos buf (pos + unat (buf pos)) j)))"
    by (rule Suc)
  also have "(\<Sum>j < k. unat (buf (sect_pos buf (pos + unat (buf pos)) j)))
      = (\<Sum>j < k. unat (buf (sect_pos buf pos (Suc j))))"
    by simp
  finally show ?case by (simp add: sum.lessThan_Suc_shift del: sum.lessThan_Suc)
qed

lemma partials_ok_force [simp]: "partials_ok cfg (s\<lparr>force_spill := b\<rparr>) = partials_ok cfg s"
  by (simp add: partials_ok_def)

lemma cycle_Completed:
  assumes "drain_modules cfg h nWords [0 ..< n_cards cfg] s 0 = Completed s' dataWords"
    and "partials_ok cfg s" and "EXTERNAL_FIFO_LENGTH cfg + 16384 \<le> 4294967296"
  shows "sect_pos (fifoData s') 0 (n_cards cfg) = dataWords"
    and "partials_ok cfg s'"
    and "\<forall>m < n_cards cfg. section_ok cfg h nWords s s' (sect_pos (fifoData s') 0 m) m"
    and "dataWords \<le> capacity cfg"
proof -
  have d: "distinct [0 ..< n_cards cfg]" by simp
  have sub: "\<forall>m \<in> set [0 ..< n_cards cfg]. m < length (partialEvents s)"
    using assms(2) by (simp add: partials_ok_def)
  have pl: "list_all partial_event (partialEvents s)"
    using assms(2) by (simp add: partials_ok_def)
  note L = drain_modules_Completed[OF assms(1) d sub pl assms(3)]
  from L show "sect_pos (fifoData s') 0 (n_cards cfg) = dataWords" by simp
  from L assms(2) show "partials_ok cfg s'" by (simp add: partials_ok_def)
  from L show "\<forall>m < n_cards cfg. section_ok cfg h nWords s s' (sect_pos (fifoData s') 0 m) m"
    by simp
  from L show "dataWords \<le> capacity cfg" by simp
qed


section \<open>The spill as the sequence of its sections\<close>

lemma sect_pos_Suc_end:
  "sect_pos buf pos (Suc k) = sect_pos buf pos k + unat (buf (sect_pos buf pos k))"
proof (induction k arbitrary: pos)
  case 0
  show ?case by simp
next
  case (Suc k)
  have "sect_pos buf pos (Suc (Suc k)) = sect_pos buf (pos + unat (buf pos)) (Suc k)" by simp
  also have "\<dots> = sect_pos buf (pos + unat (buf pos)) k
      + unat (buf (sect_pos buf (pos + unat (buf pos)) k))"
    by (rule Suc)
  also have "sect_pos buf (pos + unat (buf pos)) k = sect_pos buf pos (Suc k)" by simp
  finally show ?case .
qed

lemma sect_pos_ge: "pos \<le> sect_pos buf pos k"
  unfolding sect_pos_sum[of buf pos k] by simp

lemma window_section:
  assumes "2 \<le> unat (buf p)"
  shows "window buf p (unat (buf p)) = buf p # buf (p + 1) # payload buf p"
proof -
  have "window buf p (2 + (unat (buf p) - 2)) = window buf p 2 @ window buf (p + 2) (unat (buf p) - 2)"
    by (rule window_append[symmetric])
  moreover have "2 + (unat (buf p) - 2) = unat (buf p)" using assms by simp
  moreover have "window buf p 2 = [buf p, buf (p + 1)]"
    by (simp add: window_def upt_rec numeral_2_eq_2)
  ultimately show ?thesis by (simp add: payload_def)
qed

lemma spill_sections:
  assumes "\<forall>j < k. 2 \<le> unat (buf (sect_pos buf pos j))"
  shows "window buf pos (sect_pos buf pos k - pos) =
           concat (map (\<lambda>j. buf (sect_pos buf pos j) # buf (sect_pos buf pos j + 1)
                                 # payload buf (sect_pos buf pos j)) [0 ..< k])"
  using assms
proof (induction k)
  case 0
  then show ?case by (simp add: window_def)
next
  case (Suc k)
  let ?q = "sect_pos buf pos k"
  have two: "2 \<le> unat (buf ?q)" using Suc(2) by simp
  have ge: "pos \<le> ?q" by (rule sect_pos_ge)
  have "window buf pos (?q - pos) @ window buf (pos + (?q - pos)) (unat (buf ?q))
      = window buf pos (?q - pos + unat (buf ?q))"
    by (rule window_append)
  moreover have "pos + (?q - pos) = ?q" using ge by simp
  moreover have "?q - pos + unat (buf ?q) = sect_pos buf pos (Suc k) - pos"
    unfolding sect_pos_Suc_end using ge by simp
  ultimately have "window buf pos (sect_pos buf pos (Suc k) - pos)
      = window buf pos (?q - pos) @ window buf ?q (unat (buf ?q))"
    by simp
  also have "window buf pos (?q - pos) =
      concat (map (\<lambda>j. buf (sect_pos buf pos j) # buf (sect_pos buf pos j + 1)
                        # payload buf (sect_pos buf pos j)) [0 ..< k])"
    by (rule Suc(1)) (use Suc(2) in simp)
  also have "window buf ?q (unat (buf ?q)) = buf ?q # buf (?q + 1) # payload buf ?q"
    by (rule window_section[where buf=buf and p="?q", OF two])
  finally show ?case by simp
qed

lemma section_ok_layout:
  assumes "section_ok cfg h nWords s s' p m"
  shows "unat (fifoData s' p) = length (payload (fifoData s') p) + 2"
    and "MIN_FIFO_READ cfg \<le> unat (nWords ! m) \<Longrightarrow>
           unat (fifoData s' p) + length (partialEvents s' ! m)
             = length (partialEvents s ! m) + unat (nWords ! m) + 2"
    and "MIN_FIFO_READ cfg \<le> unat (nWords ! m) \<Longrightarrow>
           payload (fifoData s') p
             = take (unat (fifoData s' p) - 2)
                 (partialEvents s ! m @ window (fifo_words h m) 0 (unat (nWords ! m)))"
    and "unat (nWords ! m) < MIN_FIFO_READ cfg \<Longrightarrow> payload (fifoData s') p = []"
proof -
  have two: "2 \<le> unat (fifoData s' p)" using assms by (simp add: section_ok_def)
  show len: "unat (fifoData s' p) = length (payload (fifoData s') p) + 2"
    using two by (simp add: payload_def)
  have cat: "payload (fifoData s') p @ partialEvents s' ! m
      = partialEvents s ! m @ consumed cfg h m (nWords ! m)"
    using assms by (simp add: section_ok_def)
  {
    assume r: "MIN_FIFO_READ cfg \<le> unat (nWords ! m)"
    then have cat': "payload (fifoData s') p @ partialEvents s' ! m
        = partialEvents s ! m @ window (fifo_words h m) 0 (unat (nWords ! m))"
      using cat by (simp add: consumed_def)
    from arg_cong[OF cat', of length]
    show "unat (fifoData s' p) + length (partialEvents s' ! m)
             = length (partialEvents s ! m) + unat (nWords ! m) + 2"
      using len by simp
    have "take (length (payload (fifoData s') p))
        (payload (fifoData s') p @ partialEvents s' ! m) = payload (fifoData s') p"
      by simp
    then show "payload (fifoData s') p
             = take (unat (fifoData s' p) - 2)
                 (partialEvents s ! m @ window (fifo_words h m) 0 (unat (nWords ! m)))"
      unfolding cat' len by simp
  }
  {
    assume "unat (nWords ! m) < MIN_FIFO_READ cfg"
    then have "fifoData s' p = 2" using assms by (simp add: section_ok_def)
    then show "payload (fifoData s') p = []" by (simp add: payload_def window_def)
  }
qed
section \<open>A drain cycle that cuts an event, and the one that completes it\<close>

lemma cut_event_parse:
  assumes "GetSlotNumber cfg 0 = 2"
    and "window (fifo_words h 0) 0 9 = [0x00100020, 0, 0, 0, 0, 0, 0, 0, 0x00080020]"
    and "partialEvents s ! 0 = []" and "\<not> had_error s"
  shows "parse_result cfg h 0 9 s 0 =
     \<lparr>parseWords = 14, eventSize = 4, prevEventSize = 4, p_had_error = False,
      p_log = [StatsAddEvent 0 0 32, StatsAddEvent 0 0 16]\<rparr>"
proof -
  let ?buf = "spill_buffer h 0 9 s 0"
  let ?slot = "GetSlotNumber cfg 0"
  let ?st0 = "\<lparr>parseWords = 2, eventSize = 0, prevEventSize = 0, p_had_error = False,
       p_log = []\<rparr> :: parse_state"
  let ?st1 = "\<lparr>parseWords = 10, eventSize = 8, prevEventSize = 8, p_had_error = False,
       p_log = [StatsAddEvent 0 0 32]\<rparr> :: parse_state"
  let ?st2 = "\<lparr>parseWords = 14, eventSize = 4, prevEventSize = 4, p_had_error = False,
       p_log = [StatsAddEvent 0 0 32, StatsAddEvent 0 0 16]\<rparr> :: parse_state"
  have b2: "?buf 2 = 0x00100020"
    by (simp add: spill_buffer_def store_def assms(2,3))
  have b10: "?buf 10 = 0x00080020"
    by (simp add: spill_buffer_def store_def assms(2,3))
  have eA: "event_errors ?slot 0x00100020 = []" "eventSize_of 0x00100020 = 8"
    "\<not> virtualChannel 0x00100020" "chanRead 0x00100020 = 0"
    by (simp_all add: event_errors_def slotRead_def chanRead_def eventSize_of_def
        virtualChannel_def assms(1))
  have eB: "event_errors ?slot 0x00080020 = []" "eventSize_of 0x00080020 = 4"
    "\<not> virtualChannel 0x00080020" "chanRead 0x00080020 = 0"
    by (simp_all add: event_errors_def slotRead_def chanRead_def eventSize_of_def
        virtualChannel_def assms(1))
  have stop: "spill_stop 0 9 s 0 = 11"
    by (simp add: spill_stop_def assms(3))
  have "parse_result cfg h 0 9 s 0 = parse_loop ?slot 0 ?buf 11 ?st0"
    unfolding parse_result_def stop using assms(4) by (simp add: numeral_2_eq_2)
  also have "\<dots> = parse_loop ?slot 0 ?buf 11 ?st1"
  proof -
    have a: "parseWords ?st0 < 11" by simp
    have b: "\<not> (p_had_error ?st0 \<or> event_errors ?slot (?buf (parseWords ?st0)) \<noteq> [])"
      using b2 eA by simp
    show ?thesis
      unfolding parse_loop_step[where st="?st0" and stop=11 and buf="?buf"
          and slotExpected="?slot" and m=0, OF a b]
      using b2 eA by simp
  qed
  also have "\<dots> = parse_loop ?slot 0 ?buf 11 ?st2"
  proof -
    have a: "parseWords ?st1 < 11" by simp
    have b: "\<not> (p_had_error ?st1 \<or> event_errors ?slot (?buf (parseWords ?st1)) \<noteq> [])"
      using b10 eB by simp
    show ?thesis
      unfolding parse_loop_step[where st="?st1" and stop=11 and buf="?buf"
          and slotExpected="?slot" and m=0, OF a b]
      using b10 eB by simp
  qed
  also have "\<dots> = ?st2"
    by (rule parse_loop_exit) simp
  finally show ?thesis .
qed

lemma cut_event_module:
  assumes "MIN_FIFO_READ cfg \<le> 9" and "9 < EXTERNAL_FIFO_LENGTH cfg"
    and "GetSlotNumber cfg 0 = 2" and "11 \<le> capacity cfg"
    and "ReadFIFOWords_ok h 0"
    and "window (fifo_words h 0) 0 9 = [0x00100020, 0, 0, 0, 0, 0, 0, 0, 0x00080020]"
    and "partialEvents s ! 0 = []" and "\<not> had_error s"
  shows "\<exists>s1. drain_module cfg h 0 9 s 0 = Completed s1 10 \<and>
        partialEvents s1 = (partialEvents s)[0 := [0x00080020]] \<and>
        window (fifoData s1) 0 10 = [10, 0, 0x00100020, 0, 0, 0, 0, 0, 0, 0] \<and>
        trace s1 = trace s @ [StatsAddEvent 0 0 32, StatsAddEvent 0 0 16] \<and>
        record_data s1 = record_data s \<and> shm_mode s1 = shm_mode s \<and>
        output_file s1 = output_file s \<and> \<not> had_error s1 \<and>
        do_stop_acq s1 = do_stop_acq s"
proof -
  let ?buf = "spill_buffer h 0 9 s 0"
  have r: "MIN_FIFO_READ cfg \<le> unat (9 :: word_t)"
    "unat (9 :: word_t) < EXTERNAL_FIFO_LENGTH cfg" "ReadFIFOWords_ok h 0"
    using assms(1,2,5) by simp_all
  have stop: "spill_stop 0 9 s 0 = 11" by (simp add: spill_stop_def assms(7))
  have f: "0 + 2 + length (partialEvents s ! 0) + unat (9 :: word_t) \<le> capacity cfg"
    using assms(4) by (simp add: assms(7))
  note st = cut_event_parse[OF assms(3,6,7,8)]
  obtain s1 where
    dm: "drain_module cfg h 0 9 s 0 = Completed s1 10"
    and p1: "partialEvents s1 = (partialEvents s)[0 := [?buf 10]]"
    and f1: "fifoData s1 = store ?buf 0 [10]"
    and t1: "trace s1 = trace s @ [StatsAddEvent 0 0 32, StatsAddEvent 0 0 16]"
    and fl: "record_data s1 = record_data s" "shm_mode s1 = shm_mode s"
      "output_file s1 = output_file s" "\<not> had_error s1" "do_stop_acq s1 = do_stop_acq s"
    unfolding drain_module_read[OF r f] Let_def st stop
    by (simp add: assms(7) emit_def)
  have b: "?buf 1 = 0" "?buf 2 = 0x00100020" "?buf 3 = 0" "?buf 4 = 0" "?buf 5 = 0"
    "?buf 6 = 0" "?buf 7 = 0" "?buf 8 = 0" "?buf 9 = 0" "?buf 10 = 0x00080020"
    by (simp_all add: spill_buffer_def store_def assms(6,7))
  have w: "window (fifoData s1) 0 10 = [10, 0, 0x00100020, 0, 0, 0, 0, 0, 0, 0]"
    unfolding f1 window_def using b by (simp add: store_def upt_rec eval_nat_numeral)
  show ?thesis using dm p1 b(10) w t1 fl by auto
qed

lemma cut_event_words:
  "window (fifo_words cut_event_hw 0) 0 9 = [0x00100020, 0, 0, 0, 0, 0, 0, 0, 0x00080020]"
  by (simp add: window_def upt_rec cut_event_hw_def steady_hw_def eval_nat_numeral)

lemma cut_event_drain:
  assumes "ReadFIFOWords_ok h 0"
    and "window (fifo_words h 0) 0 9 = [0x00100020, 0, 0, 0, 0, 0, 0, 0, 0x00080020]"
    and "partialEvents s = [[]]" and "\<not> had_error s"
  shows "\<exists>s1. drain_modules (crate 1) h [9] [0 ..< n_cards (crate 1)] s 0
           = Completed s1 10 \<and>
        partialEvents s1 = [[0x00080020]] \<and>
        window (fifoData s1) 0 10 = [10, 0, 0x00100020, 0, 0, 0, 0, 0, 0, 0] \<and>
        trace s1 = trace s @ [StatsAddEvent 0 0 32, StatsAddEvent 0 0 16] \<and>
        record_data s1 = record_data s \<and> shm_mode s1 = shm_mode s \<and>
        output_file s1 = output_file s \<and> \<not> had_error s1 \<and>
        do_stop_acq s1 = do_stop_acq s"
proof -
  have c: "MIN_FIFO_READ (crate 1) \<le> 9" "9 < EXTERNAL_FIFO_LENGTH (crate 1)"
    "GetSlotNumber (crate 1) 0 = 2" "11 \<le> capacity (crate 1)"
    by (simp_all add: crate_def capacity_def)
  have p: "partialEvents s ! 0 = []" using assms(3) by simp
  from cut_event_module[OF c assms(1,2) p assms(4)] obtain s1 where
    dm: "drain_module (crate 1) h 0 9 s 0 = Completed s1 10"
    and r: "partialEvents s1 = (partialEvents s)[0 := [0x00080020]]"
      "window (fifoData s1) 0 10 = [10, 0, 0x00100020, 0, 0, 0, 0, 0, 0, 0]"
      "trace s1 = trace s @ [StatsAddEvent 0 0 32, StatsAddEvent 0 0 16]"
      "record_data s1 = record_data s" "shm_mode s1 = shm_mode s"
      "output_file s1 = output_file s" "\<not> had_error s1" "do_stop_acq s1 = do_stop_acq s"
    by blast
  have n1: "[0 ..< n_cards (crate 1)] = [0]" by (simp add: crate_def)
  have "drain_modules (crate 1) h [9] [0 ..< n_cards (crate 1)] s 0 = Completed s1 10"
    unfolding n1 using dm by simp
  moreover have "partialEvents s1 = [[0x00080020]]" using r(1) assms(3) by simp
  ultimately show ?thesis using r(2-) by blast
qed

lemma cut_event_hw_ok: "ReadFIFOWords_ok cut_event_hw 0"
  by (simp add: cut_event_hw_def steady_hw_def)

lemma running_poll_ok:
  "partials_ok (crate 1) running_poll"
  "EXTERNAL_FIFO_LENGTH (crate 1) + 16384 \<le> 4294967296"
  "running_poll\<lparr>force_spill := False\<rparr> = running_poll"
  "partialEvents running_poll = [[]]"
  "\<not> had_error running_poll"
  by (simp_all add: partials_ok_def partial_event_def crate_def running_poll_def
      Poll_initial_def)

lemma rest_event_drain:
  assumes "partialEvents s = [[0x00080020]]" and "\<not> had_error s"
  shows "\<exists>s2. drain_modules (crate 1) rest_event_hw [9] [0 ..< n_cards (crate 1)] s 0
           = Completed s2 12 \<and>
        partialEvents s2 = [[]] \<and>
        window (fifoData s2) 0 12 = [12, 0, 0x00080020, 0, 0, 0, 0x000C0020, 0, 0, 0, 0, 0]"
proof -
  let ?buf = "spill_buffer rest_event_hw 0 9 s 0"
  let ?slot = "GetSlotNumber (crate 1) 0"
  let ?st0 = "\<lparr>parseWords = 2, eventSize = 0, prevEventSize = 0, p_had_error = False,
       p_log = []\<rparr> :: parse_state"
  let ?st1 = "\<lparr>parseWords = 6, eventSize = 4, prevEventSize = 4, p_had_error = False,
       p_log = [StatsAddEvent 0 0 16]\<rparr> :: parse_state"
  let ?st2 = "\<lparr>parseWords = 12, eventSize = 6, prevEventSize = 6, p_had_error = False,
       p_log = [StatsAddEvent 0 0 16, StatsAddEvent 0 0 24]\<rparr> :: parse_state"
  have r: "MIN_FIFO_READ (crate 1) \<le> unat (9 :: word_t)"
    "unat (9 :: word_t) < EXTERNAL_FIFO_LENGTH (crate 1)" "ReadFIFOWords_ok rest_event_hw 0"
    by (simp_all add: crate_def steady_hw_def rest_event_hw_def)
  have b: "?buf 1 = 0" "?buf 2 = 0x00080020" "?buf 3 = 0" "?buf 4 = 0" "?buf 5 = 0"
    "?buf 6 = 0x000C0020" "?buf 7 = 0" "?buf 8 = 0" "?buf 9 = 0" "?buf 10 = 0" "?buf 11 = 0"
    by (simp_all add: spill_buffer_def store_def nth_window assms(1) steady_hw_def
        rest_event_hw_def)
  note b2 = b(2) and b6 = b(6)
  have eB: "event_errors ?slot 0x00080020 = []" "eventSize_of 0x00080020 = 4"
    "\<not> virtualChannel 0x00080020" "chanRead 0x00080020 = 0"
    by (simp_all add: event_errors_def slotRead_def chanRead_def eventSize_of_def
        virtualChannel_def crate_def)
  have eC: "event_errors ?slot 0x000C0020 = []" "eventSize_of 0x000C0020 = 6"
    "\<not> virtualChannel 0x000C0020" "chanRead 0x000C0020 = 0"
    by (simp_all add: event_errors_def slotRead_def chanRead_def eventSize_of_def
        virtualChannel_def crate_def)
  have stop: "spill_stop 0 9 s 0 = 12" by (simp add: spill_stop_def assms(1))
  have "parse_result (crate 1) rest_event_hw 0 9 s 0 = parse_loop ?slot 0 ?buf 12 ?st0"
    unfolding parse_result_def stop using assms(2) by (simp add: numeral_2_eq_2)
  also have "\<dots> = parse_loop ?slot 0 ?buf 12 ?st1"
  proof -
    have a: "parseWords ?st0 < 12" by simp
    have c: "\<not> (p_had_error ?st0 \<or> event_errors ?slot (?buf (parseWords ?st0)) \<noteq> [])"
      using b2 eB by simp
    show ?thesis
      unfolding parse_loop_step[where st="?st0" and stop=12 and buf="?buf"
          and slotExpected="?slot" and m=0, OF a c]
      using b2 eB by simp
  qed
  also have "\<dots> = parse_loop ?slot 0 ?buf 12 ?st2"
  proof -
    have a: "parseWords ?st1 < 12" by simp
    have c: "\<not> (p_had_error ?st1 \<or> event_errors ?slot (?buf (parseWords ?st1)) \<noteq> [])"
      using b6 eC by simp
    show ?thesis
      unfolding parse_loop_step[where st="?st1" and stop=12 and buf="?buf"
          and slotExpected="?slot" and m=0, OF a c]
      using b6 eC by simp
  qed
  also have "\<dots> = ?st2"
    by (rule parse_loop_exit) simp
  finally have st: "parse_result (crate 1) rest_event_hw 0 9 s 0 = ?st2" .
  have f: "0 + 2 + length (partialEvents s ! 0) + unat (9 :: word_t) \<le> capacity (crate 1)"
    by (simp add: capacity_def crate_def assms(1))
  obtain s2 where
    dm: "drain_module (crate 1) rest_event_hw 0 9 s 0 = Completed s2 12"
    and p2: "partialEvents s2 = [[]]"
    and f2: "fifoData s2 = store ?buf 0 [12]"
    unfolding drain_module_read[OF r f] Let_def st stop
    by (simp add: assms(1))
  have w: "window (fifoData s2) 0 12 = [12, 0, 0x00080020, 0, 0, 0, 0x000C0020, 0, 0, 0, 0, 0]"
    unfolding f2 window_def using b by (simp add: store_def upt_rec eval_nat_numeral)
  have n1: "[0 ..< n_cards (crate 1)] = [0]" by (simp add: crate_def)
  have "drain_modules (crate 1) rest_event_hw [9] [0 ..< n_cards (crate 1)] s 0 = Completed s2 12"
    unfolding n1 using dm by simp
  then show ?thesis using p2 w by blast
qed

section \<open>A full FIFO behind a module that is read, and a long event\<close>



section \<open>Decimal numerals and \<open>stoi\<close>\<close>

lemma digit_cases:
  assumes "d < (10::nat)"
  shows "d = 0 \<or> d = 1 \<or> d = 2 \<or> d = 3 \<or> d = 4 \<or> d = 5 \<or> d = 6 \<or> d = 7 \<or> d = 8 \<or> d = 9"
  using assms by presburger

lemma isdigit_digit_char: "d < 10 \<Longrightarrow> isdigit (digit_char d)"
  using digit_cases[of d] by (auto simp add: isdigit_def digit_char_def)

lemma digit_val_digit_char: "d < 10 \<Longrightarrow> digit_val (digit_char d) = d"
  using digit_cases[of d] by (auto simp add: digit_val_def digit_char_def)

lemma isdigit_plain:
  assumes "isdigit c"
  shows "\<not> isspace c" and "c \<noteq> CHR ''-''" and "c \<noteq> CHR ''+''" and "c \<noteq> CHR '':''"
    and "c \<in> set ''-0123456789:''"
  using assms by (auto simp add: isdigit_def isspace_def)

lemma decimal_isdigit: "c \<in> set (decimal n) \<Longrightarrow> isdigit c"
proof (induction n arbitrary: c rule: decimal.induct)
  case (1 n)
  show ?case
  proof (cases "n < 10")
    case True
    then show ?thesis using "1.prems" by (subst (asm) decimal.simps) (simp add: isdigit_digit_char)
  next
    case False
    have "n mod 10 < 10" by simp
    then have "isdigit (digit_char (n mod 10))" by (rule isdigit_digit_char)
    then show ?thesis
      using False "1.prems" "1.IH" by (subst (asm) decimal.simps) auto
  qed
qed

lemma decimal_not_Nil: "decimal n \<noteq> []"
  by (subst decimal.simps) simp

lemma digits_value_snoc:
  "digits_value (ds @ [c]) = 10 * digits_value ds + int (digit_val c)"
  by (simp add: digits_value_def)

lemma digits_value_decimal: "digits_value (decimal n) = int n"
proof (induction n rule: decimal.induct)
  case (1 n)
  show ?case
  proof (cases "n < 10")
    case True
    then show ?thesis
      by (subst decimal.simps) (simp add: digits_value_def digit_val_digit_char)
  next
    case False
    have "digits_value (decimal n)
        = 10 * digits_value (decimal (n div 10)) + int (digit_val (digit_char (n mod 10)))"
      using False by (subst decimal.simps) (simp add: digits_value_snoc)
    also have "\<dots> = 10 * int (n div 10) + int (n mod 10)"
      using False by (simp add: "1.IH" digit_val_digit_char)
    also have "\<dots> = int n" by (simp add: zdiv_int zmod_int)
    finally show ?thesis .
  qed
qed

lemma takeWhile_decimal:
  assumes "rest = [] \<or> \<not> isdigit (hd rest)"
  shows "takeWhile isdigit (decimal n @ rest) = decimal n"
proof -
  have "takeWhile isdigit rest = []" using assms by (cases rest) auto
  then show ?thesis by (simp add: takeWhile_append2 decimal_isdigit)
qed

lemma stoi_decimal:
  assumes "n < 2147483648" and "rest = [] \<or> \<not> isdigit (hd rest)"
  shows "stoi (decimal n @ rest) = Inr (int n)"
proof -
  obtain c cs where d: "decimal n = c # cs" using decimal_not_Nil[of n] by (cases "decimal n") auto
  have c: "isdigit c" using decimal_isdigit[of c n] d by simp
  have s: "dropWhile isspace (decimal n @ rest) = decimal n @ rest"
    using isdigit_plain(1)[OF c] by (simp add: d)
  have g: "skip_sign (decimal n @ rest) = (False, decimal n @ rest)"
    using isdigit_plain(2,3)[OF c] by (simp add: d skip_sign_def)
  show ?thesis
    using assms(1)
    by (simp add: stoi_def s g takeWhile_decimal[OF assms(2)] decimal_not_Nil
        digits_value_decimal)
qed

lemma stoi_minus_decimal:
  assumes "n \<le> 2147483648" and "rest = [] \<or> \<not> isdigit (hd rest)"
  shows "stoi (CHR ''-'' # decimal n @ rest) = Inr (- int n)"
proof -
  have s: "\<not> isspace CHR ''-''"
    by (simp add: isspace_def)
  have g: "skip_sign (CHR ''-'' # decimal n @ rest) = (True, decimal n @ rest)"
    by (simp add: skip_sign_def)
  show ?thesis
    using assms(1)
    by (simp add: stoi_def s g takeWhile_decimal[OF assms(2)] decimal_not_Nil
        digits_value_decimal)
qed

lemma find_first_not_of_None: "(find_first_not_of s cs = None) = (set s \<subseteq> set cs)"
  by (induction s) auto

lemma find_chr_None: "(find_chr s c = None) = (c \<notin> set s)"
  by (induction s) auto

lemma find_chr_first: "c \<notin> set xs \<Longrightarrow> find_chr (xs @ c # ys) c = Some (length xs)"
  by (induction xs) auto

lemma find_chr_take: "find_chr s c = Some p \<Longrightarrow> p < length s \<and> s ! p = c"
proof (induction s arbitrary: p)
  case Nil
  then show ?case by simp
next
  case (Cons x s)
  then show ?case by (cases "x = c") auto
qed

lemma decimal_allowed: "set (decimal n) \<subseteq> set ''-0123456789:''"
  using decimal_isdigit isdigit_plain(5) by blast

lemma decimal_no_colon: "CHR '':'' \<notin> set (decimal n)"
  using decimal_isdigit isdigit_plain(4) by blast

lemma decimal_no_minus: "CHR ''-'' \<notin> set (decimal n)"
  using decimal_isdigit isdigit_plain(2) by blast

lemma SplitParameterArgs_range:
  assumes "set arg \<subseteq> set ''-0123456789:''" and "find_chr arg CHR '':'' = Some p"
    and "stoi (take p arg) = Inr x" and "stoi (drop (Suc p) arg) = Inr y"
  shows "SplitParameterArgs arg start stop = Returns (0 \<le> x \<and> 0 \<le> y \<and> x \<le> y) x y"
proof -
  have f: "find_first_not_of arg ''-0123456789:'' = None"
    using assms(1) by (simp only: find_first_not_of_None)
  show ?thesis
    unfolding SplitParameterArgs_def f assms(2) by (auto simp add: assms(3,4))
qed

lemma SplitParameterArgs_single:
  assumes "set arg \<subseteq> set ''-0123456789:''" and "find_chr arg CHR '':'' = None"
    and "stoi arg = Inr x"
  shows "SplitParameterArgs arg start stop = Returns True x x"
proof -
  have f: "find_first_not_of arg ''-0123456789:'' = None"
    using assms(1) by (simp only: find_first_not_of_None)
  show ?thesis
    unfolding SplitParameterArgs_def f assms(2) by (simp add: assms(3))
qed

lemma SplitParameterArgs_True:
  assumes "SplitParameterArgs arg start stop = Returns True x y"
  shows "x \<le> y" and "find_chr arg CHR '':'' = None \<longrightarrow> x = y"
    and "find_chr arg CHR '':'' \<noteq> None \<longrightarrow> 0 \<le> x"
  using assms
  by (auto simp add: SplitParameterArgs_def Let_def
      split: if_splits option.splits sum.splits stoi_error.splits)

section \<open>The channel number of an event\<close>

lemma chanRead_le: "chanRead w \<le> 15"
  unfolding chanRead_def by (rule word_and_le1)

text \<open>
  C9. The channel number extracted from an event word, \<open>word & 0xF\<close>, lies in 0..15 for
  every 32-bit word, so the "Channel read not valid" branch of the parser is never taken
  and is never the reason for an error being raised.
\<close>

theorem chanRead_always_valid:
  "0 \<le> chanRead w \<and> chanRead w \<le> 15 \<and> unat (chanRead w) \<le> 15 \<and>
   ChannelNotValid c \<notin> set (event_errors slotExpected w)"
proof -
  have le: "chanRead w \<le> 15" by (rule chanRead_le)
  then have "unat (chanRead w) \<le> unat (15 :: word_t)" by (simp add: word_le_nat_alt)
  moreover have "\<not> (chanRead w < 0 \<or> chanRead w > 15)" using le by (simp add: not_less)
  ultimately show ?thesis using le by (simp add: event_errors_def)
qed

text \<open>
  C4. In chunked mode a spill of \<open>nWords\<close> words goes out as \<open>ceil (nWords / 4050)\<close>
  datagrams. Datagram \<open>i\<close> (counted from 1) starts with the two header words \<open>i\<close> and
  the number of datagrams; every datagram but the last carries 4050 payload words, the last
  one carries \<open>nWords mod 4050\<close> words, or 4050 when that remainder is zero; and the
  payloads, put one after the other, are the first \<open>nWords\<close> words of the spill buffer.
\<close>

theorem broadcast_data_chunks:
  "\<exists>ds. broadcast_data True data nWords = map Datagram ds \<and>
     length ds = (unat nWords + 4049) div 4050 \<and>
     (\<forall>i < length ds. take 2 (ds ! i) = [of_nat (i + 1), of_nat (length ds)]) \<and>
     (\<forall>i. Suc i < length ds \<longrightarrow> length (drop 2 (ds ! i)) = 4050) \<and>
     (0 < unat nWords \<longrightarrow>
        length (drop 2 (last ds)) = (if unat nWords mod 4050 = 0 then 4050 else unat nWords mod 4050)) \<and>
     concat (map (drop 2) ds) = window data 0 (unat nWords)"
proof -
  let ?n = "unat nWords"
  let ?m = "(?n + 4049) div 4050"
  let ?f = "chunk_of data (of_nat ?m) 1 0 ?n"
  let ?ds = "shm_chunks data nWords"
  have ds: "?ds = map ?f [0..<?m]" by (rule shm_chunks_closed)
  have len: "length ?ds = ?m" unfolding ds by simp
  have nth: "\<And>i. i < ?m \<Longrightarrow> ?ds ! i = ?f i" unfolding ds by simp
  have hdr: "\<forall>i < length ?ds. take 2 (?ds ! i) = [of_nat (i + 1), of_nat (length ?ds)]"
    unfolding len using nth by (simp add: chunk_of_def)
  have pay: "\<And>i. drop 2 (?f i) = window data (4050 * i) (min 4050 (?n - 4050 * i))"
    by (simp add: chunk_of_def)
  have full: "\<forall>i. Suc i < length ?ds \<longrightarrow> length (drop 2 (?ds ! i)) = 4050"
  proof (intro allI impI)
    fix i assume a: "Suc i < length ?ds"
    then have "i < ?m" "Suc i < ?m" unfolding len by simp_all
    then show "length (drop 2 (?ds ! i)) = 4050"
      using nth[of i] pay[of i] chunk_sizes(2)[of i ?n] by simp
  qed
  have lst: "0 < ?n \<longrightarrow> length (drop 2 (last ?ds)) = (if ?n mod 4050 = 0 then 4050 else ?n mod 4050)"
  proof
    assume pos: "0 < ?n"
    have "?n \<le> 4050 * ?m" by (rule ceil_4050_ge)
    with pos have mpos: "0 < ?m" by (cases "?m = 0") simp_all
    then have ne: "?ds \<noteq> []" using len by auto
    have "last ?ds = ?ds ! (?m - 1)" using last_conv_nth[OF ne] len by simp
    also have "\<dots> = ?f (?m - 1)" using nth[of "?m - 1"] mpos by simp
    finally show "length (drop 2 (last ?ds)) = (if ?n mod 4050 = 0 then 4050 else ?n mod 4050)"
      using pay[of "?m - 1"] chunk_sizes(1)[OF pos] by simp
  qed
  have "concat (map (drop 2) ?ds) = concat (map (\<lambda>i. window data (4050 * i) (min 4050 (?n - 4050 * i))) [0..<?m])"
    unfolding ds by (simp add: comp_def pay del: upt_Suc)
  also have "\<dots> = window data 0 (min ?n (4050 * ?m))" by (rule concat_windows)
  also have "min ?n (4050 * ?m) = ?n" using ceil_4050_ge[of ?n] by simp
  finally have cat: "concat (map (drop 2) ?ds) = window data 0 ?n" .
  have bc: "broadcast_data True data nWords = map Datagram ?ds" by (simp add: broadcast_data_def)
  show ?thesis by (rule exI[of _ ?ds]) (intro conjI bc len hdr full lst cat)
qed
theorem broadcast_data_chunks_witness:
  "\<exists>ds. broadcast_data True (\<lambda>i. of_nat i) 9000 = map Datagram ds \<and>
     length ds = 3 \<and>
     take 2 (ds ! 0) = [1, 3] \<and> take 2 (ds ! 1) = [2, 3] \<and> take 2 (ds ! 2) = [3, 3] \<and>
     length (drop 2 (ds ! 0)) = 4050 \<and> length (drop 2 (ds ! 1)) = 4050 \<and>
     length (drop 2 (last ds)) = 900 \<and>
     concat (map (drop 2) ds) = window (\<lambda>i. of_nat i) 0 9000"
proof -
  have n: "unat (9000 :: word_t) = 9000" by simp
  have m: "(9000 + 4049) div 4050 = (3::nat)" by simp
  have r: "(9000::nat) mod 4050 = 900" by simp
  from broadcast_data_chunks[of "\<lambda>i. of_nat i" 9000]
  obtain ds where ds: "broadcast_data True (\<lambda>i. of_nat i) 9000 = map Datagram ds"
    and len: "length ds = 3"
    and hdr: "\<forall>i<length ds. take 2 (ds ! i) = [of_nat (i + 1), of_nat (length ds)]"
    and full: "\<forall>i. Suc i < length ds \<longrightarrow> length (drop 2 (ds ! i)) = 4050"
    and lst: "length (drop 2 (last ds)) = 900"
    and cat: "concat (map (drop 2) ds) = window (\<lambda>i. of_nat i) 0 9000"
    unfolding n m r by auto
  have h0: "take 2 (ds ! 0) = [1, 3]" using hdr[rule_format, of 0] len by simp
  have h1: "take 2 (ds ! 1) = [2, 3]" using hdr[rule_format, of 1] len by simp
  have h2: "take 2 (ds ! 2) = [3, 3]" using hdr[rule_format, of 2] len by simp
  have f0: "length (drop 2 (ds ! 0)) = 4050" using full[rule_format, of 0] len by simp
  have f1: "length (drop 2 (ds ! 1)) = 4050" using full[rule_format, of 1] len by simp
  show ?thesis by (rule exI[of _ ds]) (intro conjI ds len h0 h1 h2 f0 f1 lst cat)
qed

section \<open>Opening and writing the output file\<close>

lemma CloseOutputFile_open:
  assumes "is_open (output_file s)"
  shows "fst (CloseOutputFile env c s)"
    and "\<not> is_open (output_file (snd (CloseOutputFile env c s)))"
    and "\<not> file_open (snd (CloseOutputFile env c s))"
    and "filesize (output_file (snd (CloseOutputFile env c s))) = filesize (output_file s)"
    and "trace (snd (CloseOutputFile env c s)) =
           trace s @ (if c then [] else [StatsClear, StatsDump]) @
             [FileClosed, ClientMessage ''$CLOSE_FILE'']"
    and "had_error (snd (CloseOutputFile env c s)) = had_error s"
    and "record_data (snd (CloseOutputFile env c s)) = record_data s"
  using assms by (simp_all add: CloseOutputFile_def CloseFile_def Let_def)

text \<open>
  C10. \<open>OpenOutputFile\<close> called while a file is open opens nothing: it closes the open
  file (as the end of a run, not as a continuation), sets \<open>had_error\<close>, clears
  \<open>record_data\<close> and returns false; afterwards no file is open.
\<close>

theorem OpenOutputFile_while_open:
  assumes "is_open (output_file s)"
  shows "fst (OpenOutputFile env continueRun s) = False \<and>
         had_error (snd (OpenOutputFile env continueRun s)) \<and>
         \<not> record_data (snd (OpenOutputFile env continueRun s)) \<and>
         \<not> is_open (output_file (snd (OpenOutputFile env continueRun s))) \<and>
         \<not> file_open (snd (OpenOutputFile env continueRun s)) \<and>
         trace (snd (OpenOutputFile env continueRun s)) =
           trace s @ [Console FileAlreadyOpen, StatsClear, StatsDump, FileClosed,
                      ClientMessage ''$CLOSE_FILE'']"
proof -
  let ?s0 = "emit [Console FileAlreadyOpen] s"
  have o: "is_open (output_file ?s0)" using assms by simp
  have r: "OpenOutputFile env continueRun s =
      (False, (snd (CloseOutputFile env False ?s0))\<lparr>had_error := True, record_data := False\<rparr>)"
    using assms by (simp add: OpenOutputFile_def Let_def)
  show ?thesis
    unfolding r using CloseOutputFile_open(2,3,5)[OF o, of env False] by simp
qed

theorem OpenOutputFile_while_open_witness:
  "is_open (output_file ((Poll_initial 1 0)\<lparr>output_file := \<lparr>is_open = True, filesize = 100,
       sub_file = 0\<rparr>, file_open := True, record_data := True\<rparr>)) \<and>
   fst (OpenOutputFile disk False ((Poll_initial 1 0)\<lparr>output_file := \<lparr>is_open = True,
       filesize = 100, sub_file = 0\<rparr>, file_open := True, record_data := True\<rparr>)) = False \<and>
   had_error (snd (OpenOutputFile disk False ((Poll_initial 1 0)\<lparr>output_file :=
       \<lparr>is_open = True, filesize = 100, sub_file = 0\<rparr>, file_open := True,
       record_data := True\<rparr>))) \<and>
   \<not> is_open (output_file (snd (OpenOutputFile disk False ((Poll_initial 1 0)\<lparr>output_file :=
       \<lparr>is_open = True, filesize = 100, sub_file = 0\<rparr>, file_open := True,
       record_data := True\<rparr>))))"
proof -
  let ?s = "(Poll_initial 1 0)\<lparr>output_file := \<lparr>is_open = True, filesize = 100,
       sub_file = 0\<rparr>, file_open := True, record_data := True\<rparr>"
  have o: "is_open (output_file ?s)" by simp
  from OpenOutputFile_while_open[OF o, of disk False] o show ?thesis by simp
qed

lemma OpenOutputFile_closed:
  assumes "\<not> is_open (output_file s)"
  shows "is_open (output_file (snd (OpenOutputFile env c s))) = path_writable env"
    and "path_writable env \<Longrightarrow>
           filesize (output_file (snd (OpenOutputFile env c s))) = fresh_filesize env"
    and "trace (snd (OpenOutputFile env c s)) =
           trace s @ (if path_writable env
                      then [FileOpened c True, StatsClear, StatsDump, ClientMessage ''$OPEN_FILE'']
                      else [FileOpened c False, Console OpenFailed])"
    and "next_run_num (snd (OpenOutputFile env c s)) = next_run_num s"
  using assms by (simp_all add: OpenOutputFile_def OpenNewFile_def emit_def)

lemma write_size_nowrap:
  fixes nWords :: word_t
  assumes "4 * unat nWords + 65552 < 2 ^ 32"
  shows "unat (4 * nWords + 65552) = 4 * unat nWords + 65552"
proof -
  have "unat (4 * nWords) = 4 * unat nWords"
    using assms by (simp add: unat_word_ariths)
  then show ?thesis using assms by (simp add: unat_word_ariths)
qed

lemma spill_fits_fresh_file:
  assumes "drain_modules cfg h nWords [0 ..< n_cards cfg] s 0 = Completed s' dataWords"
    and "partials_ok cfg s" and "EXTERNAL_FIFO_LENGTH cfg + 16384 \<le> 4294967296"
    and "fresh_filesize env + 4 * capacity cfg + 65552 \<le> MAX_FILE_SIZE"
  shows "fresh_filesize env + 4 * unat (of_nat dataWords :: word_t) + 65552 \<le> MAX_FILE_SIZE"
proof -
  have le: "dataWords \<le> capacity cfg" by (rule cycle_Completed(4)[OF assms(1-3)])
  then have "dataWords < 4294967296" using assms(4) by (simp add: MAX_FILE_SIZE_def)
  then have "unat (of_nat dataWords :: word_t) = dataWords" by (rule unat_of_nat_small)
  then show ?thesis using le assms(4) by simp
qed

text \<open>
  C3. For a call of \<open>write_data\<close> with an open file and a spill that fits into a fresh
  sub-file together with the reserve of 65552 bytes: if the file size plus \<open>4 * nWords\<close>
  plus the reserve exceeds 2 GiB, the file is closed as a continued run (no statistics
  dump, the run number stays) and \<open>OpenNewFile\<close> is called with \<open>continueRun = true\<close>
  before anything is written; otherwise the words are written to the file as it is. After
  a write to an open file, \<open>4 * nWords\<close> bytes are reported as written and the file size is
  at most 2 GiB - 65552 bytes. \<open>ReadFIFO\<close>, the only caller, passes the word count of a
  spill, which is at most \<open>capacity\<close> words: the spill fits as soon as the spill buffer
  does (\<open>spill_fits_fresh_file\<close>).
\<close>

theorem write_data_rollover:
  assumes "is_open (output_file s)"
    and "fresh_filesize env + 4 * unat nWords + 65552 \<le> MAX_FILE_SIZE"
  shows
    "(filesize (output_file s) + 4 * unat nWords + 65552 > MAX_FILE_SIZE \<longrightarrow>
        trace (snd (write_data env data nWords s)) =
          trace s @ [FileClosed, ClientMessage ''$CLOSE_FILE''] @
            (if path_writable env
             then [FileOpened True True, StatsClear, StatsDump, ClientMessage ''$OPEN_FILE'',
                   FileWritten (window data 0 (unat nWords))]
             else [FileOpened True False, Console OpenFailed]) \<and>
        next_run_num (snd (write_data env data nWords s)) = next_run_num s) \<and>
     (\<not> filesize (output_file s) + 4 * unat nWords + 65552 > MAX_FILE_SIZE \<longrightarrow>
        trace (snd (write_data env data nWords s)) =
          trace s @ [FileWritten (window data 0 (unat nWords))]) \<and>
     (is_open (output_file (snd (write_data env data nWords s))) \<longrightarrow>
        fst (write_data env data nWords s) = 4 * int (unat nWords) \<and>
        filesize (output_file (snd (write_data env data nWords s))) \<le> MAX_FILE_SIZE - 65552)"
proof -
  have nw: "4 * unat nWords + 65552 < 2 ^ 32"
    using assms(2) by (simp add: MAX_FILE_SIZE_def)
  show ?thesis
  proof (cases "filesize (output_file s) + 4 * unat nWords + 65552 > MAX_FILE_SIZE")
  case False
  then have c: "\<not> filesize (output_file s) + unat (4 * nWords + 65552) > MAX_FILE_SIZE"
    using write_size_nowrap[OF nw] by simp
  have "write_data env data nWords s =
      (4 * int (unat nWords),
       (emit [FileWritten (window data 0 (unat nWords))] s)
         \<lparr>output_file := (output_file s)\<lparr>filesize := filesize (output_file s) + 4 * unat nWords\<rparr>\<rparr>)"
    using assms(1) c by (simp add: write_data_def Write_def Let_def)
  then show ?thesis using False assms(1) by (simp add: MAX_FILE_SIZE_def)
next
  case True
  then have c: "filesize (output_file s) + unat (4 * nWords + 65552) > MAX_FILE_SIZE"
    using write_size_nowrap[OF nw] by simp
  let ?c = "snd (CloseOutputFile env True s)"
  let ?o = "snd (OpenOutputFile env True ?c)"
  have cl: "\<not> is_open (output_file ?c)" by (rule CloseOutputFile_open(2)[OF assms(1)])
  have ctr: "trace ?c = trace s @ [FileClosed, ClientMessage ''$CLOSE_FILE'']"
    using CloseOutputFile_open(5)[OF assms(1), of env True] by simp
  have crn: "next_run_num ?c = next_run_num s"
    using assms(1) by (simp add: CloseOutputFile_def Let_def emit_def)
  note op = OpenOutputFile_closed[OF cl, of env True]
  have w: "write_data env data nWords s =
      (fst (Write (output_file ?o) nWords),
       (if is_open (output_file ?o) then emit [FileWritten (window data 0 (unat nWords))] ?o
        else ?o)\<lparr>output_file := snd (Write (output_file ?o) nWords)\<rparr>)"
    using assms(1) c by (simp add: write_data_def Let_def split: prod.splits)
  show ?thesis
  proof (cases "path_writable env")
    case pw: True
    then have io: "is_open (output_file ?o)" using op(1) by simp
    show ?thesis unfolding w using True pw io op(2)[OF pw] op(3,4) ctr crn assms(2)
      by (simp add: Write_def MAX_FILE_SIZE_def)
  next
    case pw: False
    then have io: "\<not> is_open (output_file ?o)" using op(1) by simp
    show ?thesis unfolding w using True pw io op(3,4) ctr crn
      by (simp add: Write_def)
  qed
qed
qed

theorem write_data_rollover_witness:
  "fresh_filesize disk + 4 * unat (3 :: word_t) + 65552 \<le> MAX_FILE_SIZE \<and>
   fst (write_data disk (\<lambda>i. 0) 3
      ((Poll_initial 1 0)\<lparr>output_file := \<lparr>is_open = True, filesize = 2147418090,
         sub_file = 0\<rparr>, file_open := True, record_data := True\<rparr>)) = 12 \<and>
   trace (snd (write_data disk (\<lambda>i. 0) 3
      ((Poll_initial 1 0)\<lparr>output_file := \<lparr>is_open = True, filesize = 2147418090,
         sub_file = 0\<rparr>, file_open := True, record_data := True\<rparr>))) =
     [FileClosed, ClientMessage ''$CLOSE_FILE'', FileOpened True True, StatsClear, StatsDump,
      ClientMessage ''$OPEN_FILE'', FileWritten [0, 0, 0]] \<and>
   filesize (output_file (snd (write_data disk (\<lambda>i. 0) 3
      ((Poll_initial 1 0)\<lparr>output_file := \<lparr>is_open = True, filesize = 2147418090,
         sub_file = 0\<rparr>, file_open := True, record_data := True\<rparr>)))) \<le> 2147418096"
proof -
  let ?s = "(Poll_initial 1 0)\<lparr>output_file := \<lparr>is_open = True, filesize = 2147418090,
         sub_file = 0\<rparr>, file_open := True, record_data := True\<rparr>"
  have o: "is_open (output_file ?s)" by simp
  have n: "fresh_filesize disk + 4 * unat (3 :: word_t) + 65552 \<le> MAX_FILE_SIZE"
    by (simp add: disk_def MAX_FILE_SIZE_def)
  have win: "window (\<lambda>i. 0) 0 3 = [0, 0, 0 :: word_t]"
    by (simp add: window_def upt_rec)
  have op: "is_open (output_file (snd (write_data disk (\<lambda>i. 0) 3 ?s)))"
    by (simp add: write_data_def Write_def Let_def CloseOutputFile_def CloseFile_def
        OpenOutputFile_def OpenNewFile_def disk_def MAX_FILE_SIZE_def emit_def)
  from write_data_rollover[OF o n, of "\<lambda>i. 0"] op show ?thesis
    by (simp add: MAX_FILE_SIZE_def disk_def Poll_initial_def win)
qed

section \<open>Full and empty FIFOs\<close>



text \<open>
  C8, as the code has it. The word count of a module is held in an unsigned 32-bit word,
  so the test \<open>nWords[mod] < 0\<close> never holds and the warning about a negative count is
  never printed. A count below \<open>MIN_FIFO_READ\<close> gives the empty record \<open>{2, mod}\<close>
  with no warning (where the spill buffer has no room for the record, writing it is
  undefined). A count that the interface reported as a negative number arrives as a
  value of at least \<open>2 ^ 31\<close> and, for constants that do not exceed \<open>2 ^ 31\<close>, takes
  the full-FIFO abort.
\<close>

theorem negative_count_is_unsigned:
  "\<not> nWords < (0 :: word_t) \<and>
   (unat nWords < MIN_FIFO_READ cfg \<longrightarrow>
      drain_module cfg h m nWords s dataWords =
        (if capacity cfg < dataWords + 2 then Undefined_Behaviour
         else Completed (s\<lparr>fifoData := store (fifoData s) dataWords [2, of_nat m]\<rparr>)
                (dataWords + 2))) \<and>
   (sint nWords < 0 \<and> MIN_FIFO_READ cfg \<le> 2147483648 \<and>
    EXTERNAL_FIFO_LENGTH cfg \<le> 2147483648 \<longrightarrow>
      drain_module cfg h m nWords s dataWords =
        Aborted ((emit [Console (FullFIFO m nWords)] s)
                   \<lparr>had_error := True, do_stop_acq := True\<rparr>)) \<and>
   (Console (NegativeFIFOWords k) \<notin> set (trace s) \<longrightarrow>
      Console (NegativeFIFOWords k) \<notin>
        set (result_trace (drain_module cfg h m nWords s dataWords)))"
proof (intro conjI impI)
  show "\<not> nWords < 0" by simp
next
  assume "unat nWords < MIN_FIFO_READ cfg"
  then show "drain_module cfg h m nWords s dataWords =
      (if capacity cfg < dataWords + 2 then Undefined_Behaviour
       else Completed (s\<lparr>fifoData := store (fifoData s) dataWords [2, of_nat m]\<rparr>)
              (dataWords + 2))"
    by (rule drain_module_skip)
next
  assume a: "sint nWords < 0 \<and> MIN_FIFO_READ cfg \<le> 2147483648 \<and>
    EXTERNAL_FIFO_LENGTH cfg \<le> 2147483648"
  then have "2147483648 \<le> unat nWords" using sint_neg_unat by blast
  with a have "MIN_FIFO_READ cfg \<le> unat nWords" "EXTERNAL_FIFO_LENGTH cfg \<le> unat nWords"
    by simp_all
  then show "drain_module cfg h m nWords s dataWords =
      Aborted ((emit [Console (FullFIFO m nWords)] s)\<lparr>had_error := True, do_stop_acq := True\<rparr>)"
    by (rule drain_module_full)
next
  assume a: "Console (NegativeFIFOWords k) \<notin> set (trace s)"
  show "Console (NegativeFIFOWords k) \<notin>
      set (result_trace (drain_module cfg h m nWords s dataWords))"
  proof (cases "drain_module cfg h m nWords s dataWords = Undefined_Behaviour")
    case True
    then show ?thesis by (simp add: result_trace_def)
  next
    case False
    from drain_module_trace[OF refl False, where k=k and w=0] a show ?thesis by auto
  qed
qed

theorem negative_count_is_unsigned_witness:
  "drain_module (crate 1) (steady_hw 3 []) 0 3 (Poll_initial 1 0) 0 =
     Completed ((Poll_initial 1 0)\<lparr>fifoData := store (\<lambda>i. 0) 0 [2, 0]\<rparr>) 2 \<and>
   sint (4294967295 :: word_t) < 0 \<and>
   drain_module (crate 1) (steady_hw 4294967295 []) 0 4294967295 (Poll_initial 1 0) 0 =
     Aborted ((emit [Console (FullFIFO 0 4294967295)] (Poll_initial 1 0))
                \<lparr>had_error := True, do_stop_acq := True\<rparr>) \<and>
   Console (NegativeFIFOWords 0) \<notin>
     set (result_trace (drain_module (crate 1) (steady_hw 3 []) 0 3 (Poll_initial 1 0) 0))"
proof -
  have a1: "unat (3 :: word_t) < MIN_FIFO_READ (crate 1)" by (simp add: crate_def)
  have a2: "sint (4294967295 :: word_t) < 0 \<and> MIN_FIFO_READ (crate 1) \<le> 2147483648 \<and>
      EXTERNAL_FIFO_LENGTH (crate 1) \<le> 2147483648"
    by (simp add: crate_def)
  have a3: "Console (NegativeFIFOWords 0) \<notin> set (trace (Poll_initial 1 0))"
    by (simp add: Poll_initial_def)
  note t = negative_count_is_unsigned[where cfg="crate 1" and m=0 and s="Poll_initial 1 0"
      and dataWords=0 and k=0]
  note t1 = t[where nWords=3 and h="steady_hw 3 []", THEN conjunct2, THEN conjunct1,
      rule_format, OF a1]
  note t2 = t[where nWords=4294967295 and h="steady_hw 4294967295 []", THEN conjunct2,
      THEN conjunct2, THEN conjunct1, rule_format, OF a2]
  note t3 = t[where nWords=3 and h="steady_hw 3 []", THEN conjunct2, THEN conjunct2,
      THEN conjunct2, rule_format, OF a3]
  have cap: "\<not> capacity (crate 1) < 0 + 2" by (simp add: capacity_def crate_def)
  show ?thesis using t1 t2 t3 a2 cap by (simp add: Poll_initial_def)
qed

text \<open>
  Where the claim as stated fails: a module whose interface reports \<open>-1\<close> words. After
  the cast the count is 4294967295; the cycle is aborted for a full FIFO, the record
  \<open>{2, mod}\<close> is not written and no warning about a negative count is printed.
\<close>

theorem negative_count_counterexample:
  "sint (4294967295 :: word_t) = - 1 \<and>
   drain_module (crate 1) (steady_hw 4294967295 []) 0 4294967295 (Poll_initial 1 0) 0 =
     Aborted ((Poll_initial 1 0)\<lparr>had_error := True, do_stop_acq := True,
                 trace := [Console (FullFIFO 0 4294967295)]\<rparr>)"
  by (simp add: drain_module_def crate_def emit_def Poll_initial_def)

section \<open>The corruption dump\<close>

text \<open>
  C6, at an input where the code does not do what the claim says. Module 0 sits in slot 2
  and delivers 9 words; the first one, \<open>0x00C80030\<close>, names slot 3 and an event of 100
  words. Parsing stops at this word. The dump of the following event then clamps its length
  to \<open>dataWords + nWords[mod] - (parseWords + eventSize)\<close>, which is 11 - 102 in
  \<open>size_t\<close>, that is \<open>2 ^ 64 - 91\<close> words: the printing loop runs out of the spill
  buffer, and \<open>ReadFIFO\<close> never gets to set \<open>do_stop_acq\<close> and to return.
\<close>

theorem corruption_dump_overrun:
  "slotRead 0x00C80030 = 3 \<and> eventSize_of 0x00C80030 = 100 \<and>
   unat (next_outputSize 2 100 0 11) = 18446744073709551525 \<and>
   capacity (crate 1) = 131074 \<and>
   drain_module (crate 1) (steady_hw 9 [0x00C80030]) 0 9
     ((Poll_initial 1 0)\<lparr>acq_running := True\<rparr>) 0 = Undefined_Behaviour \<and>
   ReadFIFO (crate 1) disk (steady_hw 9 [0x00C80030]) ((Poll_initial 1 0)\<lparr>acq_running := True\<rparr>)
     = Undefined"
proof -
  let ?h = "steady_hw 9 [0x00C80030]"
  let ?s = "(Poll_initial 1 0)\<lparr>acq_running := True\<rparr>"
  let ?buf = "spill_buffer ?h 0 9 ?s 0"
  have sl: "slotRead 0x00C80030 = 3" by (simp add: slotRead_def)
  have ev: "eventSize_of 0x00C80030 = 100" by (simp add: eventSize_of_def)
  have os: "unat (next_outputSize 2 100 0 11) = 18446744073709551525"
    by (simp add: next_outputSize_def Let_def)
  have cap: "capacity (crate 1) = 131074" by (simp add: capacity_def crate_def)
  have b2: "?buf 2 = 0x00C80030"
    by (simp add: spill_buffer_def store_def nth_window Poll_initial_def steady_hw_def)
  have stop: "spill_stop 0 9 ?s 0 = 11" by (simp add: spill_stop_def Poll_initial_def)
  have errs: "event_errors (GetSlotNumber (crate 1) 0) 0x00C80030 = [SlotMismatch 3 2]"
    by (simp add: event_errors_def sl ev chanRead_def crate_def)
  have st: "parse_result (crate 1) ?h 0 9 ?s 0 =
      \<lparr>parseWords = 2, eventSize = 100, prevEventSize = 0, p_had_error = True,
       p_log = [Console (ParseError (SlotMismatch 3 2))]\<rparr>"
  proof -
    let ?st0 = "\<lparr>parseWords = 2, eventSize = 0, prevEventSize = 0, p_had_error = False,
       p_log = []\<rparr> :: parse_state"
    have a: "parseWords ?st0 < 11" by simp
    have b: "p_had_error ?st0 \<or>
        event_errors (GetSlotNumber (crate 1) 0) (?buf (parseWords ?st0)) \<noteq> []"
      using b2 errs by simp
    have "parse_result (crate 1) ?h 0 9 ?s 0 =
        parse_loop (GetSlotNumber (crate 1) 0) 0 ?buf 11 ?st0"
      unfolding parse_result_def stop by (simp add: Poll_initial_def numeral_2_eq_2)
    also have "\<dots> = ?st0\<lparr>eventSize := eventSize_of (?buf (parseWords ?st0)),
              p_had_error := True,
              p_log := p_log ?st0 @ map (Console \<circ> ParseError)
                (event_errors (GetSlotNumber (crate 1) 0) (?buf (parseWords ?st0)))\<rparr>"
      by (rule parse_loop_break[where st="?st0" and stop=11 and buf="?buf"
            and slotExpected="GetSlotNumber (crate 1) 0" and m=0, OF a b])
    also have "\<dots> = \<lparr>parseWords = 2, eventSize = 100, prevEventSize = 0, p_had_error = True,
       p_log = [Console (ParseError (SlotMismatch 3 2))]\<rparr>"
      using b2 errs ev by simp
    finally show ?thesis .
  qed
  have cd: "corruption_dump (crate 1) 0 ?buf 11
      \<lparr>parseWords = 2, eventSize = 100, prevEventSize = 0, p_had_error = True,
       p_log = [Console (ParseError (SlotMismatch 3 2))]\<rparr> = None"
    by (simp add: corruption_dump_def dump_words_def capacity_def crate_def os Let_def)
  have r: "MIN_FIFO_READ (crate 1) \<le> unat (9 :: word_t)"
    "unat (9 :: word_t) < EXTERNAL_FIFO_LENGTH (crate 1)" "ReadFIFOWords_ok ?h 0"
    by (simp_all add: crate_def steady_hw_def)
  have f: "0 + 2 + length (partialEvents ?s ! 0) + unat (9 :: word_t) \<le> capacity (crate 1)"
    by (simp add: capacity_def crate_def Poll_initial_def)
  have dm: "drain_module (crate 1) ?h 0 9 ?s 0 = Undefined_Behaviour"
    unfolding drain_module_read[OF r f] Let_def st stop cd by simp
  have mp: "map (CheckFIFOWords ?h 0) [0 ..< n_cards (crate 1)] = [9]"
    by (simp add: steady_hw_def crate_def)
  have mw: "maxWords [9 :: word_t] = 9" by (simp add: maxWords_def)
  have th: "threshWords ?s = 0" by (simp add: Poll_initial_def)
  have pf: "poll_fifo (crate 1) ?h 0 0 = [9]"
    using poll_fifo_first[of 0 ?h "crate 1"] unfolding mp mw by simp
  have n1: "[0 ..< n_cards (crate 1)] = [0]" by (simp add: crate_def)
  have s0: "?s\<lparr>force_spill := False\<rparr> = ?s" by (simp add: Poll_initial_def)
  have acq: "acq_running ?s" by simp
  have dms: "drain_modules (crate 1) ?h [9] [0] ?s 0 = Undefined_Behaviour"
    using dm by simp
  have rf: "ReadFIFO (crate 1) disk ?h ?s = Undefined"
    unfolding ReadFIFO_def Let_def th pf n1 s0 dms using acq by (simp add: mw)
  from sl ev os cap dm rf show ?thesis by (intro conjI)
qed

section \<open>The spill of a completed drain cycle\<close>

text \<open>
  C2. When the loop over the modules of a drain cycle completes with \<open>dataWords\<close> words
  in the buffer, that count is the sum of the header words of the module sections, read
  back from the buffer one section after the other (also as 32-bit words, which is the
  count handed on), and it does not exceed the capacity of the buffer. The spill is the
  sequence of the sections \<open>[header, m, payload...]\<close>. A module with fewer than
  \<open>MIN_FIFO_READ\<close> words contributes exactly \<open>{2, m}\<close>. For a module that is read, the
  header is \<open>nWords[m] + 2\<close> for the count after parsing, that is the words read plus the
  words of the old partial event minus the words of the new one, and the payload is that
  many words from the front of the old partial event followed by the words read.
  \<open>ReadFIFO\<close> then runs the statistics step and passes the sum of the headers to
  \<open>write_data\<close> (when recording) and to \<open>broadcast_data\<close>. Assumed: one partial event per
  module, and a FIFO length that leaves room for it in 32 bits.
\<close>

theorem spill_word_count:
  assumes "partials_ok cfg s" and "EXTERNAL_FIFO_LENGTH cfg + 16384 \<le> 4294967296"
    and "drain_modules cfg h nWords [0 ..< n_cards cfg] (s\<lparr>force_spill := False\<rparr>) 0
           = Completed s' dataWords"
  shows
    "dataWords = (\<Sum>j < n_cards cfg. unat (fifoData s' (sect_pos (fifoData s') 0 j))) \<and>
     (of_nat dataWords :: word_t)
       = (\<Sum>j < n_cards cfg. fifoData s' (sect_pos (fifoData s') 0 j)) \<and>
     dataWords \<le> capacity cfg \<and>
     window (fifoData s') 0 dataWords =
       concat (map (\<lambda>m. fifoData s' (sect_pos (fifoData s') 0 m) # of_nat m
                           # payload (fifoData s') (sect_pos (fifoData s') 0 m))
                 [0 ..< n_cards cfg]) \<and>
     (\<forall>m < n_cards cfg.
        (unat (nWords ! m) < MIN_FIFO_READ cfg \<longrightarrow>
           fifoData s' (sect_pos (fifoData s') 0 m) = 2 \<and>
           payload (fifoData s') (sect_pos (fifoData s') 0 m) = []) \<and>
        (MIN_FIFO_READ cfg \<le> unat (nWords ! m) \<longrightarrow>
           unat (fifoData s' (sect_pos (fifoData s') 0 m)) + length (partialEvents s' ! m)
             = length (partialEvents s ! m) + unat (nWords ! m) + 2 \<and>
           payload (fifoData s') (sect_pos (fifoData s') 0 m)
             = take (unat (fifoData s' (sect_pos (fifoData s') 0 m)) - 2)
                 (partialEvents s ! m @ window (fifo_words h m) 0 (unat (nWords ! m))))) \<and>
     (acq_running s \<and> nWords = poll_fifo cfg h (threshWords s) 0 \<and>
      (threshWords s < unat (maxWords nWords) \<or> force_spill s) \<longrightarrow>
        ReadFIFO cfg env h s =
          Returned True
            (let n = (\<Sum>j < n_cards cfg. fifoData s' (sect_pos (fifoData s') 0 j));
                 s1 = spill_statistics cfg h s';
                 s2 = (if record_data s1 then snd (write_data env (fifoData s1) n s1) else s1)
             in emit (map ClientSend (broadcast_data (shm_mode s2) (fifoData s2) n)) s2))"
proof -
  let ?b = "fifoData s'"
  let ?p = "sect_pos ?b 0"
  have ok: "partials_ok cfg (s\<lparr>force_spill := False\<rparr>)" using assms(1) by simp
  note C = cycle_Completed[OF assms(3) ok assms(2)]
  have so: "section_ok cfg h nWords s s' (?p m) m" if "m < n_cards cfg" for m
    using C(3) that by (simp add: section_ok_def)
  have sum: "dataWords = (\<Sum>j < n_cards cfg. unat (?b (?p j)))"
    using C(1) sect_pos_sum[of ?b 0 "n_cards cfg"] by simp
  have "(of_nat dataWords :: word_t) = (\<Sum>j < n_cards cfg. of_nat (unat (?b (?p j))))"
    by (subst sum) (simp only: of_nat_sum)
  then have wsum: "(of_nat dataWords :: word_t) = (\<Sum>j < n_cards cfg. ?b (?p j))" by simp
  have two: "\<forall>j < n_cards cfg. 2 \<le> unat (?b (?p j))"
    using so by (simp add: section_ok_def)
  have "window ?b 0 (?p (n_cards cfg) - 0) =
      concat (map (\<lambda>j. ?b (?p j) # ?b (?p j + 1) # payload ?b (?p j)) [0 ..< n_cards cfg])"
    by (rule spill_sections[OF two])
  also have "map (\<lambda>j. ?b (?p j) # ?b (?p j + 1) # payload ?b (?p j)) [0 ..< n_cards cfg]
      = map (\<lambda>m. ?b (?p m) # of_nat m # payload ?b (?p m)) [0 ..< n_cards cfg]"
    using so by (simp add: section_ok_def)
  finally have lay: "window ?b 0 dataWords =
      concat (map (\<lambda>m. ?b (?p m) # of_nat m # payload ?b (?p m)) [0 ..< n_cards cfg])"
    using C(1) by simp
  have sec: "\<forall>m < n_cards cfg.
        (unat (nWords ! m) < MIN_FIFO_READ cfg \<longrightarrow>
           ?b (?p m) = 2 \<and> payload ?b (?p m) = []) \<and>
        (MIN_FIFO_READ cfg \<le> unat (nWords ! m) \<longrightarrow>
           unat (?b (?p m)) + length (partialEvents s' ! m)
             = length (partialEvents s ! m) + unat (nWords ! m) + 2 \<and>
           payload ?b (?p m)
             = take (unat (?b (?p m)) - 2)
                 (partialEvents s ! m @ window (fifo_words h m) 0 (unat (nWords ! m))))"
  proof (intro allI impI conjI)
    fix m assume m: "m < n_cards cfg"
    note L = section_ok_layout[OF so[OF m]]
    {
      assume e: "unat (nWords ! m) < MIN_FIFO_READ cfg"
      show "?b (?p m) = 2" using so[OF m] e by (simp add: section_ok_def)
      show "payload ?b (?p m) = []" by (rule L(4)[OF e])
    }
    {
      assume r: "MIN_FIFO_READ cfg \<le> unat (nWords ! m)"
      show "unat (?b (?p m)) + length (partialEvents s' ! m)
             = length (partialEvents s ! m) + unat (nWords ! m) + 2"
        by (rule L(2)[OF r])
      show "payload ?b (?p m)
             = take (unat (?b (?p m)) - 2)
                 (partialEvents s ! m @ window (fifo_words h m) 0 (unat (nWords ! m)))"
        by (rule L(3)[OF r])
    }
  qed
  have rf: "acq_running s \<and> nWords = poll_fifo cfg h (threshWords s) 0 \<and>
      (threshWords s < unat (maxWords nWords) \<or> force_spill s) \<longrightarrow>
        ReadFIFO cfg env h s =
          Returned True
            (let n = (\<Sum>j < n_cards cfg. ?b (?p j));
                 s1 = spill_statistics cfg h s';
                 s2 = (if record_data s1 then snd (write_data env (fifoData s1) n s1) else s1)
             in emit (map ClientSend (broadcast_data (shm_mode s2) (fifoData s2) n)) s2)"
  proof
    assume a: "acq_running s \<and> nWords = poll_fifo cfg h (threshWords s) 0 \<and>
      (threshWords s < unat (maxWords nWords) \<or> force_spill s)"
    then have dm: "drain_modules cfg h (poll_fifo cfg h (threshWords s) 0) [0 ..< n_cards cfg]
        (s\<lparr>force_spill := False\<rparr>) 0 = Completed s' dataWords"
      using assms(3) by simp
    show "ReadFIFO cfg env h s =
          Returned True
            (let n = (\<Sum>j < n_cards cfg. ?b (?p j));
                 s1 = spill_statistics cfg h s';
                 s2 = (if record_data s1 then snd (write_data env (fifoData s1) n s1) else s1)
             in emit (map ClientSend (broadcast_data (shm_mode s2) (fifoData s2) n)) s2)"
      unfolding ReadFIFO_def Let_def dm wsum[symmetric] using a by auto
  qed
  show ?thesis using sum wsum C(4) lay sec rf by (intro conjI)
qed

theorem spill_word_count_witness:
  "partials_ok (crate 1) recording_poll \<and>
   EXTERNAL_FIFO_LENGTH (crate 1) + 16384 \<le> 4294967296 \<and>
   (\<exists>s1 sf.
      drain_modules (crate 1) due_hw [9] [0 ..< n_cards (crate 1)]
        (recording_poll\<lparr>force_spill := False\<rparr>) 0 = Completed s1 10 \<and>
      (\<Sum>j < n_cards (crate 1). unat (fifoData s1 (sect_pos (fifoData s1) 0 j))) = 10 \<and>
      window (fifoData s1) 0 10 = [10, 0, 0x00100020, 0, 0, 0, 0, 0, 0, 0] \<and>
      unat (fifoData s1 0) + length (partialEvents s1 ! 0) = 9 + 2 \<and>
      payload (fifoData s1) 0 = take 8 [0x00100020, 0, 0, 0, 0, 0, 0, 0, 0x00080020] \<and>
      ReadFIFO (crate 1) disk due_hw recording_poll = Returned True sf \<and>
      trace sf =
        [StatsAddEvent 0 0 32, StatsAddEvent 0 0 16, StatsAddTime, GetStatistics 0,
         StatsSetXiaRates 0, StatsDump, StatsClearRates,
         FileWritten [10, 0, 0x00100020, 0, 0, 0, 0, 0, 0, 0],
         ClientSend SpillNotification])"
proof -
  let ?s = "recording_poll"
  have ok: "partials_ok (crate 1) ?s"
    by (simp add: partials_ok_def partial_event_def crate_def recording_poll_def
        running_poll_def Poll_initial_def)
  have s0: "?s\<lparr>force_spill := False\<rparr> = ?s"
    and st: "partialEvents ?s = [[]]" "\<not> had_error ?s" "trace ?s = []" "record_data ?s"
      "\<not> shm_mode ?s" "output_file ?s = \<lparr>is_open = True, filesize = 65552, sub_file = 0\<rparr>"
      "acq_running ?s" "threshWords ?s = 0" "\<not> force_spill ?s"
    by (simp_all add: recording_poll_def running_poll_def Poll_initial_def)
  have hw: "ReadFIFOWords_ok due_hw 0"
    "window (fifo_words due_hw 0) 0 9 = [0x00100020, 0, 0, 0, 0, 0, 0, 0, 0x00080020]"
    "AddTime due_hw"
    using cut_event_hw_ok cut_event_words by (simp_all add: due_hw_def)
  from cut_event_drain[OF hw(1,2) st(1,2)] obtain s1 where
    dm: "drain_modules (crate 1) due_hw [9] [0 ..< n_cards (crate 1)]
           (?s\<lparr>force_spill := False\<rparr>) 0 = Completed s1 10"
    and r: "partialEvents s1 = [[0x00080020]]"
      "window (fifoData s1) 0 10 = [10, 0, 0x00100020, 0, 0, 0, 0, 0, 0, 0]"
      "trace s1 = trace ?s @ [StatsAddEvent 0 0 32, StatsAddEvent 0 0 16]"
      "record_data s1 = record_data ?s" "shm_mode s1 = shm_mode ?s"
      "output_file s1 = output_file ?s"
    unfolding s0 by blast
  note t = spill_word_count[OF ok running_poll_ok(2) dm, where env=disk]
  have n: "n_cards (crate 1) = 1" by (simp add: crate_def)
  have h0: "fifoData s1 0 = 10"
    using nth_window[of 0 10 "fifoData s1" 0] r(2) by simp
  have mp: "map (CheckFIFOWords due_hw 0) [0 ..< n_cards (crate 1)] = [9]"
    by (simp add: steady_hw_def cut_event_hw_def due_hw_def crate_def)
  have mw: "maxWords [9 :: word_t] = 9" by (simp add: maxWords_def)
  have pf: "poll_fifo (crate 1) due_hw 0 0 = [9]"
    using poll_fifo_first[of 0 due_hw "crate 1"] unfolding mp mw by simp
  have g: "acq_running ?s \<and> [9] = poll_fifo (crate 1) due_hw (threshWords ?s) 0 \<and>
      (threshWords ?s < unat (maxWords [9 :: word_t]) \<or> force_spill ?s)"
    using st(7,8) pf mw by simp
  have sm: "(\<Sum>j < n_cards (crate 1). unat (fifoData s1 (sect_pos (fifoData s1) 0 j))) = 10"
    using t[THEN conjunct1] by simp
  have m0: "(0::nat) < n_cards (crate 1)" "MIN_FIFO_READ (crate 1) \<le> unat ([9 :: word_t] ! 0)"
    by (simp_all add: crate_def)
  note t5 = t[THEN conjunct2, THEN conjunct2, THEN conjunct2, THEN conjunct2, THEN conjunct1,
      rule_format, OF m0(1), THEN conjunct2, rule_format, OF m0(2)]
  have hd: "unat (fifoData s1 0) + length (partialEvents s1 ! 0) = 9 + 2"
    using t5[THEN conjunct1] st(1) by simp
  have py: "payload (fifoData s1) 0 = take 8 [0x00100020, 0, 0, 0, 0, 0, 0, 0, 0x00080020]"
    using t5[THEN conjunct2] st(1) hw(2) h0 by simp
  note t6 = t[THEN conjunct2, THEN conjunct2, THEN conjunct2, THEN conjunct2, THEN conjunct2,
      rule_format, OF g]
  let ?s2 = "spill_statistics (crate 1) due_hw s1"
  have s2: "trace ?s2 = [StatsAddEvent 0 0 32, StatsAddEvent 0 0 16, StatsAddTime,
       GetStatistics 0, StatsSetXiaRates 0, StatsDump, StatsClearRates]"
    "record_data ?s2" "\<not> shm_mode ?s2" "fifoData ?s2 = fifoData s1"
    "output_file ?s2 = \<lparr>is_open = True, filesize = 65552, sub_file = 0\<rparr>"
    using r(3-6) st(3-6) hw(3)
    by (simp_all add: spill_statistics_def ReadScalers_def Let_def crate_def)
  let ?s3 = "snd (write_data disk (fifoData ?s2) 10 ?s2)"
  have s3: "trace ?s3 = trace ?s2 @ [FileWritten (window (fifoData s1) 0 10)]"
    "\<not> shm_mode ?s3"
    using s2(2-5)
    by (simp_all add: write_data_def Write_def Let_def MAX_FILE_SIZE_def emit_def)
  have sn: "(\<Sum>j < n_cards (crate 1). fifoData s1 (sect_pos (fifoData s1) 0 j)) = 10"
    unfolding n by (simp add: h0)
  let ?sf = "emit (map ClientSend (broadcast_data (shm_mode ?s3) (fifoData ?s3) 10)) ?s3"
  have rf: "ReadFIFO (crate 1) disk due_hw ?s = Returned True ?sf"
    using t6 unfolding Let_def sn using s2(2) by simp
  have tf: "trace ?sf =
        [StatsAddEvent 0 0 32, StatsAddEvent 0 0 16, StatsAddTime, GetStatistics 0,
         StatsSetXiaRates 0, StatsDump, StatsClearRates,
         FileWritten [10, 0, 0x00100020, 0, 0, 0, 0, 0, 0, 0],
         ClientSend SpillNotification]"
    using s3 s2(1) r(2) by (simp add: broadcast_data_def)
  show ?thesis using ok running_poll_ok(2) dm sm r(2) hd py rf tf by blast
qed

section \<open>Partial events across spills\<close>

text \<open>
  C1, as the code has it. Take two drain cycles of a run, one after the other, that both
  complete, and a module \<open>m\<close>.

  After the first cycle the partial event of \<open>m\<close> is empty or the beginning of an event,
  shorter than the size field of its first word says (the difference are the missing
  words). The payload emitted for \<open>m\<close> is made of whole events, and the payload followed
  by the partial event is the partial event from before followed by the words taken from
  the FIFO: the partial event is the tail of what was read. When the module was read, the
  header of its section is the number of words read, plus the length of the old partial
  event, minus the length of the new one, plus 2.

  In the second cycle a module with at least \<open>MIN_FIFO_READ\<close> words gets the partial event
  put in front of the words read: the payload it emits, followed by the partial event it
  leaves, is the old partial event followed by the words read. A payload that is not empty
  begins with the old partial event and goes beyond it, so the event is completed; an
  empty payload means that the event is still incomplete, and then the new partial event
  is the old one followed by the words read. A module with fewer words is skipped: it
  emits no payload, and its partial event is neither copied nor cleared but kept for a
  later cycle.

  Either way the payloads of the two spills, followed by the partial event left at the
  end, are the partial event from before the first cycle followed by the words taken from
  the FIFO in the two cycles, in order: nothing is lost and nothing is doubled.
\<close>

theorem partial_event_carry:
  assumes "partials_ok cfg s0" and "EXTERNAL_FIFO_LENGTH cfg + 16384 \<le> 4294967296"
    and "drain_modules cfg h1 nWords1 [0 ..< n_cards cfg] s0 0 = Completed s1 d1"
    and "partialEvents s1' = partialEvents s1"
    and "drain_modules cfg h2 nWords2 [0 ..< n_cards cfg] s1' 0 = Completed s2 d2"
    and "m < n_cards cfg"
  shows
    "partial_event (partialEvents s1 ! m) \<and>
     whole_events (payload (fifoData s1) (sect_pos (fifoData s1) 0 m)) \<and>
     payload (fifoData s1) (sect_pos (fifoData s1) 0 m) @ partialEvents s1 ! m
       = partialEvents s0 ! m @ consumed cfg h1 m (nWords1 ! m) \<and>
     (MIN_FIFO_READ cfg \<le> unat (nWords1 ! m) \<longrightarrow>
        unat (fifoData s1 (sect_pos (fifoData s1) 0 m)) + length (partialEvents s1 ! m)
          = length (partialEvents s0 ! m) + unat (nWords1 ! m) + 2) \<and>
     (MIN_FIFO_READ cfg \<le> unat (nWords2 ! m) \<longrightarrow>
        payload (fifoData s2) (sect_pos (fifoData s2) 0 m) @ partialEvents s2 ! m
          = partialEvents s1 ! m @ window (fifo_words h2 m) 0 (unat (nWords2 ! m)) \<and>
        (payload (fifoData s2) (sect_pos (fifoData s2) 0 m) \<noteq> [] \<longrightarrow>
           take (length (partialEvents s1 ! m)) (payload (fifoData s2) (sect_pos (fifoData s2) 0 m))
             = partialEvents s1 ! m \<and>
           (partialEvents s1 ! m \<noteq> [] \<longrightarrow>
              length (partialEvents s1 ! m)
                < length (payload (fifoData s2) (sect_pos (fifoData s2) 0 m))))) \<and>
     (unat (nWords2 ! m) < MIN_FIFO_READ cfg \<longrightarrow>
        payload (fifoData s2) (sect_pos (fifoData s2) 0 m) = [] \<and>
        partialEvents s2 ! m = partialEvents s1 ! m) \<and>
     whole_events (payload (fifoData s2) (sect_pos (fifoData s2) 0 m)) \<and>
     partial_event (partialEvents s2 ! m) \<and>
     payload (fifoData s1) (sect_pos (fifoData s1) 0 m)
       @ payload (fifoData s2) (sect_pos (fifoData s2) 0 m) @ partialEvents s2 ! m
       = partialEvents s0 ! m @ consumed cfg h1 m (nWords1 ! m)
           @ consumed cfg h2 m (nWords2 ! m)"
proof -
  let ?P1 = "payload (fifoData s1) (sect_pos (fifoData s1) 0 m)"
  let ?P2 = "payload (fifoData s2) (sect_pos (fifoData s2) 0 m)"
  let ?q0 = "partialEvents s0 ! m"
  let ?q1 = "partialEvents s1 ! m"
  let ?q2 = "partialEvents s2 ! m"
  note C1 = cycle_Completed[OF assms(3,1,2)]
  have ok1: "partials_ok cfg s1'" using C1(2) assms(4) by (simp add: partials_ok_def)
  note C2 = cycle_Completed[OF assms(5) ok1 assms(2)]
  have a: "section_ok cfg h1 nWords1 s0 s1 (sect_pos (fifoData s1) 0 m) m"
    using C1(3) assms(6) by simp
  have "section_ok cfg h2 nWords2 s1' s2 (sect_pos (fifoData s2) 0 m) m"
    using C2(3) assms(6) by simp
  then have b: "section_ok cfg h2 nWords2 s1 s2 (sect_pos (fifoData s2) 0 m) m"
    by (simp add: section_ok_def assms(4))
  have p1: "partial_event ?q1" and w1: "whole_events ?P1"
    and e1: "?P1 @ ?q1 = ?q0 @ consumed cfg h1 m (nWords1 ! m)"
    using a by (simp_all add: section_ok_def)
  have p2: "partial_event ?q2" and w2: "whole_events ?P2"
    and e2: "?P2 @ ?q2 = ?q1 @ consumed cfg h2 m (nWords2 ! m)"
    using b by (simp_all add: section_ok_def)
  have h1: "MIN_FIFO_READ cfg \<le> unat (nWords1 ! m) \<longrightarrow>
        unat (fifoData s1 (sect_pos (fifoData s1) 0 m)) + length ?q1
          = length ?q0 + unat (nWords1 ! m) + 2"
    using section_ok_layout(2)[OF a] by blast
  have front: "take (length ?q1) ?P2 = ?q1 \<and> (?q1 \<noteq> [] \<longrightarrow> length ?q1 < length ?P2)"
    if ne: "?P2 \<noteq> []"
  proof (cases "?q1 = []")
    case True
    then show ?thesis by simp
  next
    case False
    have "hd ?P2 = hd (?P2 @ ?q2)" using ne by simp
    also have "\<dots> = hd ?q1" unfolding e2 using False by simp
    finally have hd: "hd ?P2 = hd ?q1" .
    have "length ?q1 < unat (eventSize_of (hd ?q1))"
      using p1 False by (simp add: partial_event_def)
    moreover have "unat (eventSize_of (hd ?P2)) \<le> length ?P2"
      by (rule whole_events_hd(2)[OF w2 ne])
    ultimately have lt: "length ?q1 < length ?P2" unfolding hd by linarith
    have "take (length ?q1) ?P2 = take (length ?q1) (?P2 @ ?q2)" using lt by simp
    also have "\<dots> = ?q1" unfolding e2 by simp
    finally show ?thesis using lt by simp
  qed
  have rd: "MIN_FIFO_READ cfg \<le> unat (nWords2 ! m) \<longrightarrow>
        ?P2 @ ?q2 = ?q1 @ window (fifo_words h2 m) 0 (unat (nWords2 ! m)) \<and>
        (?P2 \<noteq> [] \<longrightarrow>
           take (length ?q1) ?P2 = ?q1 \<and> (?q1 \<noteq> [] \<longrightarrow> length ?q1 < length ?P2))"
    using e2 front by (simp add: consumed_def)
  have sk: "unat (nWords2 ! m) < MIN_FIFO_READ cfg \<longrightarrow> ?P2 = [] \<and> ?q2 = ?q1"
    using b section_ok_layout(4)[OF b] by (simp add: section_ok_def)
  have "?P1 @ ?P2 @ ?q2 = (?P1 @ ?q1) @ consumed cfg h2 m (nWords2 ! m)"
    unfolding e2 by simp
  then have all: "?P1 @ ?P2 @ ?q2
       = ?q0 @ consumed cfg h1 m (nWords1 ! m) @ consumed cfg h2 m (nWords2 ! m)"
    unfolding e1 by simp
  show ?thesis using p1 w1 e1 h1 rd sk w2 p2 all by (intro conjI)
qed

theorem partial_event_carry_witness:
  "partials_ok (crate 1) running_poll \<and>
   EXTERNAL_FIFO_LENGTH (crate 1) + 16384 \<le> 4294967296 \<and>
   (\<exists>s1 s2.
      drain_modules (crate 1) cut_event_hw [9] [0 ..< n_cards (crate 1)] running_poll 0
        = Completed s1 10 \<and>
      drain_modules (crate 1) rest_event_hw [9] [0 ..< n_cards (crate 1)] s1 0
        = Completed s2 12 \<and>
      payload (fifoData s1) (sect_pos (fifoData s1) 0 0)
        = [0x00100020, 0, 0, 0, 0, 0, 0, 0] \<and>
      partialEvents s1 ! 0 = [0x00080020] \<and>
      partial_event [0x00080020] \<and>
      unat (fifoData s1 (sect_pos (fifoData s1) 0 0)) = 10 \<and>
      payload (fifoData s2) (sect_pos (fifoData s2) 0 0)
        = [0x00080020, 0, 0, 0, 0x000C0020, 0, 0, 0, 0, 0] \<and>
      partialEvents s2 ! 0 = [] \<and>
      whole_events [0x00080020, 0, 0, 0, 0x000C0020, 0, 0, 0, 0, 0])"
proof -
  from cut_event_drain[OF cut_event_hw_ok cut_event_words running_poll_ok(4,5)] obtain s1 where
    d1: "drain_modules (crate 1) cut_event_hw [9] [0 ..< n_cards (crate 1)] running_poll 0
           = Completed s1 10"
    and p1: "partialEvents s1 = [[0x00080020]]" and he: "\<not> had_error s1"
    by blast
  from rest_event_drain[OF p1 he] obtain s2 where
    d2: "drain_modules (crate 1) rest_event_hw [9] [0 ..< n_cards (crate 1)] s1 0
           = Completed s2 12"
    and p2: "partialEvents s2 = [[]]"
    by blast
  have m: "0 < n_cards (crate 1)" by (simp add: crate_def)
  have rd: "MIN_FIFO_READ (crate 1) \<le> unat ([9 :: word_t] ! 0)" by (simp add: crate_def)
  have c1: "consumed (crate 1) cut_event_hw 0 ([9] ! 0)
      = [0x00100020, 0, 0, 0, 0, 0, 0, 0] @ [0x00080020]"
    using cut_event_words by (simp add: consumed_def crate_def)
  have "window (fifo_words rest_event_hw 0) 0 9 = [0, 0, 0, 0x000C0020, 0, 0, 0, 0, 0]"
    by (simp add: window_def upt_rec rest_event_hw_def steady_hw_def eval_nat_numeral)
  then have w2: "window (fifo_words rest_event_hw 0) 0 (unat ([9 :: word_t] ! 0))
      = [0, 0, 0, 0x000C0020, 0, 0, 0, 0, 0]"
    by simp
  note t = partial_event_carry[OF running_poll_ok(1,2) d1 refl d2 m]
  have q1: "partialEvents s1 ! 0 = [0x00080020]" using p1 by simp
  have q2: "partialEvents s2 ! 0 = []" using p2 by simp
  have q0: "partialEvents running_poll ! 0 = []" using running_poll_ok(4) by simp
  have pe: "partial_event [0x00080020]" using t[THEN conjunct1] q1 by simp
  have P1: "payload (fifoData s1) (sect_pos (fifoData s1) 0 0)
      = [0x00100020, 0, 0, 0, 0, 0, 0, 0]"
    using t[THEN conjunct2, THEN conjunct2, THEN conjunct1] unfolding q1 q0 c1 by simp
  have hd: "unat (fifoData s1 (sect_pos (fifoData s1) 0 0)) = 10"
    using t[THEN conjunct2, THEN conjunct2, THEN conjunct2, THEN conjunct1, rule_format, OF rd]
    unfolding q1 q0 by simp
  have P2: "payload (fifoData s2) (sect_pos (fifoData s2) 0 0)
      = [0x00080020, 0, 0, 0, 0x000C0020, 0, 0, 0, 0, 0]"
    using t[THEN conjunct2, THEN conjunct2, THEN conjunct2, THEN conjunct2, THEN conjunct1,
        rule_format, OF rd, THEN conjunct1]
    unfolding q1 q2 w2 by simp
  have we: "whole_events [0x00080020, 0, 0, 0, 0x000C0020, 0, 0, 0, 0, 0]"
    using t[THEN conjunct2, THEN conjunct2, THEN conjunct2, THEN conjunct2, THEN conjunct2,
        THEN conjunct2, THEN conjunct1]
    unfolding P2 .
  show ?thesis using running_poll_ok(1,2) d1 d2 P1 q1 pe hd P2 q2 we by blast
qed

text \<open>
  Where the claim as stated fails: the first spill cuts an event after its first word,
  which becomes the partial event of module 0. For the next spill the module reports the
  three outstanding words, fewer than \<open>MIN_FIFO_READ\<close>: the spill is \<open>{2, 0}\<close>, the
  partial event is not copied into it and is not cleared.
\<close>

theorem partial_event_carry_counterexample:
  "two_spills (crate 1) cut_event_hw [9] (steady_hw 3 []) [3] running_poll
     = (Some ([10, 0, 0x00100020, 0, 0, 0, 0, 0, 0, 0], [[0x00080020]]),
        Some ([2, 0], [[0x00080020]]))"
proof -
  from cut_event_drain[OF cut_event_hw_ok cut_event_words running_poll_ok(4,5)] obtain s1 where
    d1: "drain_modules (crate 1) cut_event_hw [9] [0 ..< n_cards (crate 1)] running_poll 0
           = Completed s1 10"
    and p1: "partialEvents s1 = [[0x00080020]]"
    and w1: "window (fifoData s1) 0 10 = [10, 0, 0x00100020, 0, 0, 0, 0, 0, 0, 0]"
    by blast
  have e: "unat ([3 :: word_t] ! 0) < MIN_FIFO_READ (crate 1)" by (simp add: crate_def)
  have f: "0 + 2 \<le> capacity (crate 1)" by (simp add: capacity_def crate_def)
  have n1: "[0 ..< n_cards (crate 1)] = [0]" by (simp add: crate_def)
  have d2: "drain_modules (crate 1) (steady_hw 3 []) [3] [0 ..< n_cards (crate 1)] s1 0
      = Completed (s1\<lparr>fifoData := store (fifoData s1) 0 [2, of_nat 0]\<rparr>) (0 + 2)"
    unfolding n1 using drain_module_empty[OF e f, where h="steady_hw 3 []" and m=0 and s=s1]
    by simp
  have w2: "window (store (fifoData s1) 0 [2, of_nat 0]) 0 (0 + 2) = [2, 0]"
    by (simp add: window_def store_def upt_rec eval_nat_numeral)
  have v1: "spill_view (Completed s1 10)
      = Some ([10, 0, 0x00100020, 0, 0, 0, 0, 0, 0, 0], [[0x00080020]])"
    using w1 p1 by (simp add: spill_view_def)
  have v2: "spill_view (drain_modules (crate 1) (steady_hw 3 []) [3]
        [0 ..< n_cards (crate 1)] s1 0) = Some ([2, 0], [[0x00080020]])"
    unfolding d2 using w2 p1 by (simp add: spill_view_def)
  show ?thesis
    unfolding two_spills_def d1 drain_result.case v1 v2 by (rule refl)
qed

section \<open>Ranges of modules and channels\<close>

text \<open>
  C7, as the code has it. For decimal numerals \<open>a\<close> and \<open>b\<close> that fit \<open>int\<close>: the argument
  \<open>a:b\<close> yields \<open>start = a\<close> and \<open>stop = b\<close> and is accepted exactly when \<open>a \<le> b\<close>; a
  single numeral yields \<open>start = stop\<close> and is accepted, also with a minus sign before it;
  with a colon, a negative start or a negative stop is rejected. In general an accepted
  argument has \<open>start \<le> stop\<close>, without a colon \<open>start = stop\<close>, and with a colon
  \<open>0 \<le> start\<close>.
\<close>

theorem SplitParameterArgs_bounds:
  assumes "a < 2147483648" and "b < 2147483648"
  shows
    "SplitParameterArgs (decimal a @ '':'' @ decimal b) start stop
       = Returns (a \<le> b) (int a) (int b) \<and>
     SplitParameterArgs (decimal a) start stop = Returns True (int a) (int a) \<and>
     SplitParameterArgs (CHR ''-'' # decimal a) start stop
       = Returns True (- int a) (- int a) \<and>
     (0 < a \<longrightarrow>
        SplitParameterArgs (CHR ''-'' # decimal a @ '':'' @ decimal b) start stop
          = Returns False (- int a) (int b)) \<and>
     (0 < b \<longrightarrow>
        SplitParameterArgs (decimal a @ '':-'' @ decimal b) start stop
          = Returns False (int a) (- int b)) \<and>
     (SplitParameterArgs arg start stop = Returns True x y \<longrightarrow>
        x \<le> y \<and> (find_chr arg CHR '':'' = None \<longrightarrow> x = y) \<and>
        (find_chr arg CHR '':'' \<noteq> None \<longrightarrow> 0 \<le> x))"
proof -
  note al = decimal_allowed[of a] decimal_allowed[of b]
  have sa: "stoi (decimal a) = Inr (int a)"
    using stoi_decimal[OF assms(1), where rest="[]"] by simp
  have sb: "stoi (decimal b) = Inr (int b)"
    using stoi_decimal[OF assms(2), where rest="[]"] by simp
  have na: "stoi (CHR ''-'' # decimal a) = Inr (- int a)"
    using stoi_minus_decimal[where n=a and rest="[]"] assms(1) by simp
  have nb: "stoi (CHR ''-'' # decimal b) = Inr (- int b)"
    using stoi_minus_decimal[where n=b and rest="[]"] assms(2) by simp
  have r1: "SplitParameterArgs (decimal a @ CHR '':'' # decimal b) start stop
      = Returns (0 \<le> int a \<and> 0 \<le> int b \<and> int a \<le> int b) (int a) (int b)"
  proof (rule SplitParameterArgs_range[where p="length (decimal a)"])
    show "set (decimal a @ CHR '':'' # decimal b) \<subseteq> set ''-0123456789:''"
      using al by auto
    show "find_chr (decimal a @ CHR '':'' # decimal b) CHR '':'' = Some (length (decimal a))"
      by (rule find_chr_first[OF decimal_no_colon])
    show "stoi (take (length (decimal a)) (decimal a @ CHR '':'' # decimal b)) = Inr (int a)"
      by (simp add: sa)
    show "stoi (drop (Suc (length (decimal a))) (decimal a @ CHR '':'' # decimal b))
        = Inr (int b)"
      by (simp add: sb)
  qed
  have c1: "SplitParameterArgs (decimal a @ '':'' @ decimal b) start stop
       = Returns (a \<le> b) (int a) (int b)"
    using r1 by simp
  have c2: "SplitParameterArgs (decimal a) start stop = Returns True (int a) (int a)"
  proof (rule SplitParameterArgs_single)
    show "set (decimal a) \<subseteq> set ''-0123456789:''" by (rule al)
    show "find_chr (decimal a) CHR '':'' = None"
      by (simp only: find_chr_None) (rule decimal_no_colon)
    show "stoi (decimal a) = Inr (int a)" by (rule sa)
  qed
  have c3: "SplitParameterArgs (CHR ''-'' # decimal a) start stop
       = Returns True (- int a) (- int a)"
  proof (rule SplitParameterArgs_single)
    show "set (CHR ''-'' # decimal a) \<subseteq> set ''-0123456789:''" using al by auto
    show "find_chr (CHR ''-'' # decimal a) CHR '':'' = None"
      using decimal_no_colon[of a] by (simp add: find_chr_None)
    show "stoi (CHR ''-'' # decimal a) = Inr (- int a)" by (rule na)
  qed
  have r4: "SplitParameterArgs ((CHR ''-'' # decimal a) @ CHR '':'' # decimal b) start stop
      = Returns (0 \<le> - int a \<and> 0 \<le> int b \<and> - int a \<le> int b) (- int a) (int b)"
  proof (rule SplitParameterArgs_range[where p="length (CHR ''-'' # decimal a)"])
    show "set ((CHR ''-'' # decimal a) @ CHR '':'' # decimal b) \<subseteq> set ''-0123456789:''"
      using al by auto
    show "find_chr ((CHR ''-'' # decimal a) @ CHR '':'' # decimal b) CHR '':''
        = Some (length (CHR ''-'' # decimal a))"
      by (rule find_chr_first) (use decimal_no_colon[of a] in simp)
    show "stoi (take (length (CHR ''-'' # decimal a))
        ((CHR ''-'' # decimal a) @ CHR '':'' # decimal b)) = Inr (- int a)"
      using na by simp
    show "stoi (drop (Suc (length (CHR ''-'' # decimal a)))
        ((CHR ''-'' # decimal a) @ CHR '':'' # decimal b)) = Inr (int b)"
      using sb by simp
  qed
  have c4: "0 < a \<longrightarrow>
        SplitParameterArgs (CHR ''-'' # decimal a @ '':'' @ decimal b) start stop
          = Returns False (- int a) (int b)"
    using r4 by simp
  have r5: "SplitParameterArgs (decimal a @ CHR '':'' # CHR ''-'' # decimal b) start stop
      = Returns (0 \<le> int a \<and> 0 \<le> - int b \<and> int a \<le> - int b) (int a) (- int b)"
  proof (rule SplitParameterArgs_range[where p="length (decimal a)"])
    show "set (decimal a @ CHR '':'' # CHR ''-'' # decimal b) \<subseteq> set ''-0123456789:''"
      using al by auto
    show "find_chr (decimal a @ CHR '':'' # CHR ''-'' # decimal b) CHR '':''
        = Some (length (decimal a))"
      by (rule find_chr_first[OF decimal_no_colon])
    show "stoi (take (length (decimal a)) (decimal a @ CHR '':'' # CHR ''-'' # decimal b))
        = Inr (int a)"
      by (simp add: sa)
    show "stoi (drop (Suc (length (decimal a)))
        (decimal a @ CHR '':'' # CHR ''-'' # decimal b)) = Inr (- int b)"
      using nb by simp
  qed
  have c5: "0 < b \<longrightarrow>
        SplitParameterArgs (decimal a @ '':-'' @ decimal b) start stop
          = Returns False (int a) (- int b)"
    using r5 by simp
  have c6: "SplitParameterArgs arg start stop = Returns True x y \<longrightarrow>
        x \<le> y \<and> (find_chr arg CHR '':'' = None \<longrightarrow> x = y) \<and>
        (find_chr arg CHR '':'' \<noteq> None \<longrightarrow> 0 \<le> x)"
    using SplitParameterArgs_True[of arg start stop x y] by blast
  show ?thesis using c1 c2 c3 c4 c5 c6 by (intro conjI)
qed

theorem SplitParameterArgs_bounds_witness:
  "(2::nat) < 2147483648 \<and> (3::nat) < 2147483648 \<and>
   SplitParameterArgs ''2:3'' 0 0 = Returns True 2 3 \<and>
   find_chr ''2:3'' CHR '':'' = Some 1 \<and>
   SplitParameterArgs ''3:2'' 0 0 = Returns False 3 2 \<and>
   SplitParameterArgs ''3'' 0 0 = Returns True 3 3 \<and>
   SplitParameterArgs ''-3:2'' 0 0 = Returns False (- 3) 2 \<and>
   SplitParameterArgs ''2:-3'' 0 0 = Returns False 2 (- 3)"
proof -
  have d2: "decimal 2 = ''2''" by (subst decimal.simps) (simp add: digit_char_def)
  have d3: "decimal 3 = ''3''" by (subst decimal.simps) (simp add: digit_char_def)
  have a: "(2::nat) < 2147483648" and b: "(3::nat) < 2147483648" by simp_all
  note t = SplitParameterArgs_bounds[OF a b, where start=0 and stop=0 and arg="''2:3''"
      and x=2 and y=3]
  note u = SplitParameterArgs_bounds[OF b a, where start=0 and stop=0 and arg="''2:3''"
      and x=2 and y=3]
  have "SplitParameterArgs ''2:3'' 0 0 = Returns True 2 3"
    using t[THEN conjunct1] by (simp add: d2 d3)
  moreover have "SplitParameterArgs ''3:2'' 0 0 = Returns False 3 2"
    using u[THEN conjunct1] by (simp add: d2 d3)
  moreover have "SplitParameterArgs ''3'' 0 0 = Returns True 3 3"
    using u[THEN conjunct2, THEN conjunct1] by (simp add: d3)
  moreover have "SplitParameterArgs ''-3:2'' 0 0 = Returns False (- 3) 2"
    using u[THEN conjunct2, THEN conjunct2, THEN conjunct2, THEN conjunct1]
    by (simp add: d2 d3)
  moreover have "SplitParameterArgs ''2:-3'' 0 0 = Returns False 2 (- 3)"
    using t[THEN conjunct2, THEN conjunct2, THEN conjunct2, THEN conjunct2, THEN conjunct1]
    by (simp add: d2 d3)
  moreover have "find_chr ''2:3'' CHR '':'' = Some 1" by simp
  ultimately show ?thesis by simp
qed

text \<open>
  Where the claim as stated fails: the single argument \<open>-5\<close> has both bounds negative and
  is accepted, with \<open>start = stop = -5\<close>.
\<close>

theorem SplitParameterArgs_counterexample:
  "SplitParameterArgs ''-5'' 0 0 = Returns True (- 5) (- 5)"
  by (simp add: SplitParameterArgs_def stoi_def skip_sign_def isspace_def isdigit_def
      digits_value_def digit_val_def)


end
